theory Spec2Isabelle
  imports Complex_Main "HOL-Library.AList"
begin

section \<open>JavaScript values and string primitives\<close>

text \<open>
  A property of a configuration object that holds a string or is absent is a
  \<open>string option\<close>: \<open>None\<close> is JavaScript's \<open>undefined\<close>. A value is truthy when it is
  a non-empty string (\<open>undefined\<close> and \<open>""\<close> are both falsy).
\<close>

definition truthy :: "string option \<Rightarrow> bool" where
  "truthy v = (case v of None \<Rightarrow> False | Some s \<Rightarrow> s \<noteq> [])"

text \<open>\<open>a || b\<close>: the left operand when it is truthy, else the right one.\<close>

definition js_or :: "string option \<Rightarrow> string option \<Rightarrow> string option" where
  "js_or a b = (if truthy a then a else b)"

text \<open>A value interpolated in a template literal: \<open>undefined\<close> prints as its name.\<close>

definition template :: "string option \<Rightarrow> string" where
  "template v = (case v of None \<Rightarrow> ''undefined'' | Some s \<Rightarrow> s)"

text \<open>\<open>s.startsWith(p)\<close>.\<close>

definition startsWith :: "string \<Rightarrow> string \<Rightarrow> bool" where
  "startsWith s p = (take (length p) s = p)"

text \<open>
  \<open>s.replace(pat, rep)\<close> with a string pattern: only the first occurrence of \<open>pat\<close>
  is replaced (the empty pattern occurs at position 0).
\<close>

fun replace_first :: "string \<Rightarrow> string \<Rightarrow> string \<Rightarrow> string" where
  "replace_first pat rep [] = (if pat = [] then rep else [])"
| "replace_first pat rep (c # cs) =
     (if startsWith (c # cs) pat then rep @ drop (length pat) (c # cs)
      else c # replace_first pat rep cs)"

text \<open>\<open>s.replace(/^\/+/, '')\<close>: the leading run of slashes is removed.\<close>

definition strip_leading_slashes :: "string \<Rightarrow> string" where
  "strip_leading_slashes s = dropWhile (\<lambda>c. c = CHR ''/'') s"

text \<open>\<open>s.replace(/\/+/g, '/')\<close>: every maximal run of slashes becomes one slash.\<close>

fun collapse_slashes :: "string \<Rightarrow> string" where
  "collapse_slashes (a # b # cs) =
     (if a = CHR ''/'' \<and> b = CHR ''/'' then collapse_slashes (b # cs)
      else a # collapse_slashes (b # cs))"
| "collapse_slashes cs = cs"

text \<open>\<open>s.split(sep)\<close> for a one-character separator; the result is never empty.\<close>

fun split_on :: "char \<Rightarrow> string \<Rightarrow> string list" where
  "split_on sep [] = [[]]"
| "split_on sep (c # cs) =
     (if c = sep then [] # split_on sep cs
      else (case split_on sep cs of
              [] \<Rightarrow> [[c]]
            | seg # segs \<Rightarrow> (c # seg) # segs))"

section \<open>Path mapper (transfer-manager.js, buildDestPath)\<close>

record media_paths =
  movies :: "string option"
  tv :: "string option"
  root :: "string option"

datatype media_type = MoviesType | TvType | RootType

text \<open>
  One branch test of lines 93--106: the base directory is truthy and a string prefix of
  the source path; the remainder is the path with the first occurrence of the base
  removed and leading slashes stripped.
\<close>

definition under_base :: "string option \<Rightarrow> string \<Rightarrow> string option" where
  "under_base base sourcePath =
     (case base of
        None \<Rightarrow> None
      | Some b \<Rightarrow>
          if b \<noteq> [] \<and> startsWith sourcePath b
          then Some (strip_leading_slashes (replace_first b [] sourcePath))
          else None)"

text \<open>Lines 89--112: the relative path and the media type of a source path.\<close>

definition matchSource :: "string \<Rightarrow> media_paths \<Rightarrow> string \<times> media_type" where
  "matchSource sourcePath sourceMediaPaths =
     (case under_base (movies sourceMediaPaths) sourcePath of
        Some r \<Rightarrow> (r, MoviesType)
      | None \<Rightarrow>
     (case under_base (tv sourceMediaPaths) sourcePath of
        Some r \<Rightarrow> (r, TvType)
      | None \<Rightarrow>
     (case under_base (root sourceMediaPaths) sourcePath of
        Some r \<Rightarrow> (r, RootType)
      | None \<Rightarrow> (last (split_on (CHR ''/'') sourcePath), RootType))))"

text \<open>Lines 115--122: the destination base directory for a media type.\<close>

definition destBasePath :: "media_type \<Rightarrow> media_paths \<Rightarrow> string option" where
  "destBasePath mediaType destMediaPaths =
     (if mediaType = MoviesType \<and> truthy (movies destMediaPaths) then movies destMediaPaths
      else if mediaType = TvType \<and> truthy (tv destMediaPaths) then tv destMediaPaths
      else js_or (root destMediaPaths)
             (js_or (movies destMediaPaths) (tv destMediaPaths)))"

definition buildDestPath :: "string \<Rightarrow> media_paths \<Rightarrow> media_paths \<Rightarrow> string" where
  "buildDestPath sourcePath sourceMediaPaths destMediaPaths =
     (let (relativePath, mediaType) = matchSource sourcePath sourceMediaPaths
      in collapse_slashes
           (template (destBasePath mediaType destMediaPaths) @ ''/'' @ relativePath))"

text \<open>The category tables of the specification's path-mapping example.\<close>

definition srcCategories :: media_paths where
  "srcCategories = \<lparr> movies = Some ''/a/movies'', tv = Some ''/a/tv'', root = Some ''/a'' \<rparr>"

definition dstCategories :: media_paths where
  "dstCategories = \<lparr> movies = Some ''/b/Movies'', tv = Some ''/b/TV'', root = Some ''/b'' \<rparr>"

text \<open>The destination's entry for a media type.\<close>

definition category_of :: "media_type \<Rightarrow> media_paths \<Rightarrow> string option" where
  "category_of mediaType mp =
     (case mediaType of MoviesType \<Rightarrow> movies mp | TvType \<Rightarrow> tv mp | RootType \<Rightarrow> root mp)"

section \<open>Numbers\<close>

text \<open>
  A JavaScript number as far as this code needs it: \<open>NaN\<close> or an integer (the counts
  and timestamps handled here are integers well inside the exact range of a double).
  \<open>a !== b\<close> is true as soon as one side is \<open>NaN\<close>.
\<close>

datatype jsnum = NaN | Num int





section \<open>Regular expressions with backtracking\<close>








section \<open>Progress parser (ssh-manager.js, startRsyncTransfer)\<close>


text \<open>
  A progress object. \<open>speed\<close> and \<open>eta\<close> are \<open>null\<close> (\<open>None\<close>) in a new transfer
  record and strings in every parsed sample.
\<close>

record progress =
  transferred :: jsnum
  percentage :: jsnum
  speed :: "string option"
  eta :: "string option"








section \<open>Transfer orchestrator (transfer-manager.js)\<close>

subsection \<open>Data\<close>

text \<open>A file of a batch, \<open>{path, name, size}\<close>.\<close>

record file_entry =
  path :: string
  name :: string
  size_file :: int

record ssh_config =
  host :: string
  port :: int
  username :: string

text \<open>A server of the configuration, with the fields the orchestrator reads.\<close>

record server =
  id_server :: string
  mediaPaths :: media_paths
  ssh :: ssh_config

datatype status = Queued | Active | Completed | Failed | Cancelled | Skipped

text \<open>
  A transfer record (lines 44--63). Identifiers stand for the strings that \<open>uuidv4()\<close>
  returns; \<open>None\<close> in \<open>error\<close>, \<open>startedAt\<close> and \<open>completedAt\<close> is \<open>null\<close>.
\<close>

record transfer =
  id_transfer :: nat
  sourceServerId :: string
  destServerId :: string
  sourcePath :: string
  destPath :: string
  filename :: string
  size_transfer :: int
  status :: status
  progress :: progress
  error :: "string option"
  createdAt :: int
  startedAt :: "int option"
  completedAt :: "int option"

text \<open>
  One call of \<open>sshManager.startRsyncTransfer\<close> (lines 179--185): the transfer whose
  execution made it and the four arguments that determine the copy command.
\<close>

record rsync_call =
  call_transfer :: nat
  sourceConfig :: server
  destConfig :: server
  call_sourcePath :: string
  call_destPath :: string

text \<open>ssh-manager.js, lines 252--257: the command run on the source host.\<close>

definition shell_escape :: "string \<Rightarrow> string" where
  "shell_escape s =
     concat (map (\<lambda>c. if c = CHR 0x27 then [CHR 0x27, CHR 0x5C, CHR 0x27, CHR 0x27] else [c]) s)"

definition rsyncCommand :: "rsync_call \<Rightarrow> string" where
  "rsyncCommand c =
     ''rsync -avz --info=progress2 --partial --mkpath '' @ [CHR 0x27]
       @ shell_escape (call_sourcePath c) @ [CHR 0x27] @ '' ''
       @ username (ssh (destConfig c)) @ ''@'' @ host (ssh (destConfig c)) @ '':'' @ [CHR 0x27]
       @ shell_escape (call_destPath c) @ [CHR 0x27]"

text \<open>
  The manager. \<open>transfers\<close> is the Map of records in insertion order, \<open>queue\<close> the
  array of waiting ids, \<open>activeTransfers\<close> the Set of running ids (a list without
  repetition, in insertion order), \<open>maxConcurrent\<close> the bound, a finite number that need
  not be whole (the code compares the size of the Set with it by \<open><\<close> and never checks
  it). Three fields make the environment explicit:
  \<open>nextId\<close> is the source of fresh identifiers behind \<open>uuidv4()\<close>; \<open>pending\<close> holds
  the executions of \<open>startTransfer\<close> that are suspended at the \<open>await\<close> of line 179,
  each with the \<open>sourceServer\<close> and \<open>destServer\<close> it was called with; \<open>rsyncCalls\<close>
  logs the calls made to the copy driver. The socket (\<open>io\<close>) is left out: the
  \<open>emit\<close> methods write to it and touch no other field.
\<close>

record manager =
  transfers :: "(nat \<times> transfer) list"
  queue :: "nat list"
  activeTransfers :: "nat list"
  maxConcurrent :: rat
  nextId :: nat
  pending :: "(nat \<times> server \<times> server) list"
  rsyncCalls :: "rsync_call list"

text \<open>Lines 5--11, the constructor.\<close>

definition new_manager :: manager where
  "new_manager =
     \<lparr> transfers = [], queue = [], activeTransfers = [], maxConcurrent = 3,
       nextId = 0, pending = [], rsyncCalls = [] \<rparr>"

text \<open>\<open>Set.prototype.add\<close>.\<close>

definition set_add :: "nat \<Rightarrow> nat list \<Rightarrow> nat list" where
  "set_add x xs = (if x \<in> set xs then xs else xs @ [x])"

text \<open>\<open>uuidv4()\<close>: an identifier that was never returned before.\<close>

definition uuidv4 :: "manager \<Rightarrow> nat \<times> manager" where
  "uuidv4 m = (nextId m, m\<lparr> nextId := Suc (nextId m) \<rparr>)"

text \<open>
  An assignment to a field of the record object that an execution holds. The object is
  the one stored in the table under its id for as long as the retention sweep has not
  removed it; afterwards the assignment changes an object that the table no longer
  reaches.
\<close>

definition mutate :: "nat \<Rightarrow> (transfer \<Rightarrow> transfer) \<Rightarrow> manager \<Rightarrow> manager" where
  "mutate transferId f m =
     (case map_of (transfers m) transferId of
        None \<Rightarrow> m
      | Some t \<Rightarrow> m\<lparr> transfers := AList.update transferId (f t) (transfers m) \<rparr>)"

subsection \<open>Operations\<close>

text \<open>Lines 25--27. The new bound is stored as it comes, without any validation.\<close>

definition setMaxConcurrent :: "rat \<Rightarrow> manager \<Rightarrow> manager" where
  "setMaxConcurrent newMax m = m\<lparr> maxConcurrent := newMax \<rparr>"

text \<open>
  Lines 153--185: \<open>startTransfer\<close> up to its \<open>await\<close>. It runs synchronously inside
  the caller: the record becomes active, the copy driver is called with the servers
  passed in, and the execution is suspended.
\<close>

definition startTransfer :: "nat \<Rightarrow> server \<Rightarrow> server \<Rightarrow> int \<Rightarrow> manager \<Rightarrow> manager" where
  "startTransfer transferId sourceServer destServer now m =
     (case map_of (transfers m) transferId of
        None \<Rightarrow> m
      | Some t \<Rightarrow>
          m\<lparr> transfers :=
               AList.update transferId (t\<lparr> status := Active, startedAt := Some now \<rparr>)
                 (transfers m),
             rsyncCalls := rsyncCalls m @
               [\<lparr> call_transfer = transferId, sourceConfig = sourceServer,
                  destConfig = destServer, call_sourcePath = sourcePath t,
                  call_destPath = destPath t \<rparr>],
             pending := pending m @ [(transferId, sourceServer, destServer)] \<rparr>)"

lemma startTransfer_queue [simp]:
  "queue (startTransfer transferId sourceServer destServer now m) = queue m"
  by (simp add: startTransfer_def split: option.splits)

text \<open>Lines 132--145: the admission pass.\<close>

function processQueue :: "server \<Rightarrow> server \<Rightarrow> int \<Rightarrow> manager \<Rightarrow> manager" where
  "processQueue sourceServer destServer now m =
     (case queue m of
        [] \<Rightarrow> m
      | transferId # rest \<Rightarrow>
          if of_nat (length (activeTransfers m)) < maxConcurrent m then
            (let m1 = m\<lparr> queue := rest \<rparr>
             in case map_of (transfers m1) transferId of
                  None \<Rightarrow> processQueue sourceServer destServer now m1
                | Some t \<Rightarrow>
                    if status t \<noteq> Queued
                    then processQueue sourceServer destServer now m1
                    else processQueue sourceServer destServer now
                           (startTransfer transferId sourceServer destServer now
                              (m1\<lparr> activeTransfers :=
                                    set_add transferId (activeTransfers m1) \<rparr>)))
          else m)"
  by pat_completeness auto
termination
  by (relation "measure (\<lambda>(sourceServer, destServer, now, m). length (queue m))") auto

declare processQueue.simps [simp del]

text \<open>Lines 44--63: the record created for a file.\<close>

definition newTransfer :: "nat \<Rightarrow> server \<Rightarrow> server \<Rightarrow> file_entry \<Rightarrow> int \<Rightarrow> transfer" where
  "newTransfer transferId sourceServer destServer f now =
     \<lparr> id_transfer = transferId,
       sourceServerId = id_server sourceServer,
       destServerId = id_server destServer,
       sourcePath = path f,
       destPath = buildDestPath (path f) (mediaPaths sourceServer) (mediaPaths destServer),
       filename = name f,
       size_transfer = size_file f,
       status = Queued,
       progress = \<lparr> transferred = Num 0, percentage = Num 0, speed = None, eta = None \<rparr>,
       error = None,
       createdAt = now,
       startedAt = None,
       completedAt = None \<rparr>"

text \<open>Lines 40--67: the body of the loop, for one file.\<close>

definition createOne :: "server \<Rightarrow> server \<Rightarrow> int \<Rightarrow> file_entry \<Rightarrow> manager \<Rightarrow> nat \<times> manager" where
  "createOne sourceServer destServer now f m =
     (let (transferId, m1) = uuidv4 m;
          t = newTransfer transferId sourceServer destServer f now
      in (transferId,
          m1\<lparr> transfers := AList.update transferId t (transfers m1),
              queue := queue m1 @ [transferId] \<rparr>))"

text \<open>Lines 39--71: the loop that creates and enqueues one record per file.\<close>

fun createLoop :: "server \<Rightarrow> server \<Rightarrow> int \<Rightarrow> file_entry list \<Rightarrow> manager \<Rightarrow> nat list \<times> manager" where
  "createLoop sourceServer destServer now [] m = ([], m)"
| "createLoop sourceServer destServer now (f # files) m =
     (let (transferId, m2) = createOne sourceServer destServer now f m;
          (transferIds, m3) = createLoop sourceServer destServer now files m2
      in (transferId # transferIds, m3))"

text \<open>
  Lines 36--77. The admission pass of line 74 has no \<open>await\<close> in it and runs to its end
  before \<open>createTransfers\<close> returns the ids.
\<close>

definition createTransfers ::
  "server \<Rightarrow> server \<Rightarrow> file_entry list \<Rightarrow> int \<Rightarrow> manager \<Rightarrow> nat list \<times> manager" where
  "createTransfers sourceServer destServer files now m =
     (let (transferIds, m1) = createLoop sourceServer destServer now files m
      in (transferIds, processQueue sourceServer destServer now m1))"

text \<open>
  Lines 168--176: the progress callback of a running execution.
\<close>

definition progressCallback :: "nat \<Rightarrow> progress \<Rightarrow> manager \<Rightarrow> manager" where
  "progressCallback transferId p m =
     (case map_of (pending m) transferId of
        None \<Rightarrow> m
      | Some servers \<Rightarrow>
          mutate transferId
            (\<lambda>t. t\<lparr> progress := \<lparr> transferred = transferred p, percentage = percentage p,
                                  speed = speed p, eta = eta p \<rparr> \<rparr>) m)"

text \<open>
  Lines 187--210: a suspended execution continues when the copy driver's promise is
  settled. \<open>outcome\<close> stands for the assignments of the \<open>try\<close> branch (lines 188--190)
  or of the \<open>catch\<close> branch (lines 197--199); the \<open>finally\<close> block (lines 204--210)
  then frees the slot and runs the admission pass with the servers of this execution.
\<close>

definition settle :: "nat \<Rightarrow> (transfer \<Rightarrow> transfer) \<Rightarrow> int \<Rightarrow> manager \<Rightarrow> manager" where
  "settle transferId outcome now m =
     (case map_of (pending m) transferId of
        None \<Rightarrow> m
      | Some (sourceServer, destServer) \<Rightarrow>
          processQueue sourceServer destServer now
            ((mutate transferId outcome (m\<lparr> pending := AList.delete transferId (pending m) \<rparr>))
               \<lparr> activeTransfers := removeAll transferId (activeTransfers m) \<rparr>))"

text \<open>The promise was resolved: the copy ended with exit status 0.\<close>

definition rsyncResolved :: "nat \<Rightarrow> int \<Rightarrow> manager \<Rightarrow> manager" where
  "rsyncResolved transferId now m =
     settle transferId
       (\<lambda>t. t\<lparr> status := Completed, completedAt := Some now,
               progress := (progress t)\<lparr> percentage := Num 100 \<rparr> \<rparr>) now m"

text \<open>The promise was rejected: a connection error or a non-zero exit status.\<close>

definition rsyncRejected :: "nat \<Rightarrow> string \<Rightarrow> int \<Rightarrow> manager \<Rightarrow> manager" where
  "rsyncRejected transferId message now m =
     settle transferId
       (\<lambda>t. t\<lparr> status := Failed, error := Some message, completedAt := Some now \<rparr>) now m"

text \<open>
  Lines 219--249. The result is the thrown error message, or the returned flag with the
  new state. The second parameter of the method, \<open>sourceServer\<close>, is never read.
\<close>

definition cancelTransfer :: "nat \<Rightarrow> int \<Rightarrow> manager \<Rightarrow> string + bool \<times> manager" where
  "cancelTransfer transferId now m =
     (case map_of (transfers m) transferId of
        None \<Rightarrow> Inl ''Transfer not found''
      | Some t \<Rightarrow>
          if status t = Queued then
            Inr (True,
                 m\<lparr> queue := remove1 transferId (queue m),
                    transfers :=
                      AList.update transferId
                        (t\<lparr> status := Cancelled, completedAt := Some now \<rparr>) (transfers m) \<rparr>)
          else if status t = Active then
            Inr (True,
                 m\<lparr> transfers :=
                      AList.update transferId
                        (t\<lparr> status := Cancelled, completedAt := Some now \<rparr>) (transfers m),
                    activeTransfers := removeAll transferId (activeTransfers m) \<rparr>)
          else Inr (False, m))"

text \<open>Lines 256--258.\<close>

definition getTransfer :: "nat \<Rightarrow> manager \<Rightarrow> transfer option" where
  "getTransfer transferId m = map_of (transfers m) transferId"

text \<open>Lines 289--301.\<close>

record statistics =
  total :: nat
  queued :: nat
  active :: nat
  completed :: nat
  failed :: nat
  cancelled :: nat
  skipped :: nat

definition count_status :: "status \<Rightarrow> manager \<Rightarrow> nat" where
  "count_status st m = length (filter (\<lambda>t. status t = st) (map snd (transfers m)))"

definition getStatistics :: "manager \<Rightarrow> statistics" where
  "getStatistics m =
     \<lparr> total = length (map snd (transfers m)),
       queued = count_status Queued m,
       active = count_status Active m,
       completed = count_status Completed m,
       failed = count_status Failed m,
       cancelled = count_status Cancelled m,
       skipped = count_status Skipped m \<rparr>"

text \<open>Lines 307--326. A \<open>completedAt\<close> of \<open>null\<close> or \<open>0\<close> is falsy.\<close>

definition sweepable :: "int \<Rightarrow> int \<Rightarrow> transfer \<Rightarrow> bool" where
  "sweepable maxAge now t =
     ((status t = Completed \<or> status t = Failed \<or> status t = Cancelled \<or> status t = Skipped)
      \<and> (case completedAt t of None \<Rightarrow> False | Some c \<Rightarrow> c \<noteq> 0 \<and> now - c > maxAge))"

definition clearOldTransfers :: "int \<Rightarrow> int \<Rightarrow> manager \<Rightarrow> manager" where
  "clearOldTransfers maxAge now m =
     (let toDelete = map fst (filter (\<lambda>(k, t). sweepable maxAge now t) (transfers m))
      in m\<lparr> transfers := foldl (\<lambda>ts k. AList.delete k ts) (transfers m) toDelete \<rparr>)"

subsection \<open>Runs of the orchestrator\<close>

text \<open>
  What can happen to a manager: a call of one of its methods, or the copy driver
  reporting on an execution that is suspended (a progress sample, success, failure).
  The integer after the arguments is the clock read by \<open>Date.now()\<close> during the event.
\<close>

datatype event =
    Submit server server "file_entry list" int
  | Progress nat progress
  | Resolved nat int
  | Rejected nat string int
  | Cancel nat int
  | SetMaxConcurrent rat
  | ClearOld int int

fun step :: "event \<Rightarrow> manager \<Rightarrow> manager" where
  "step (Submit sourceServer destServer files now) m =
     snd (createTransfers sourceServer destServer files now m)"
| "step (Progress transferId p) m = progressCallback transferId p m"
| "step (Resolved transferId now) m = rsyncResolved transferId now m"
| "step (Rejected transferId message now) m = rsyncRejected transferId message now m"
| "step (Cancel transferId now) m =
     (case cancelTransfer transferId now m of Inl e \<Rightarrow> m | Inr (ok, m1) \<Rightarrow> m1)"
| "step (SetMaxConcurrent newMax) m = setMaxConcurrent newMax m"
| "step (ClearOld maxAge now) m = clearOldTransfers maxAge now m"

fun run :: "event list \<Rightarrow> manager \<Rightarrow> manager" where
  "run [] m = m"
| "run (e # es) m = run es (step e m)"

section \<open>Submission endpoint (routes/transfers.js, POST /api/transfers)\<close>

text \<open>
  The request body. A missing identifier is \<open>None\<close>; \<open>body_files\<close> is \<open>None\<close> when the
  field is missing or is not an array.
\<close>

record request_body =
  body_sourceServerId :: "string option"
  body_destServerId :: "string option"
  body_files :: "file_entry list option"

text \<open>
  The response: an HTTP status with an error message, or the success response (status
  200) carrying the created ids.
\<close>

datatype response = Failure nat string | Success "nat list"

text \<open>
  Lines 14--77. Every check comes before the call of \<open>createTransfers\<close>. The handler's
  \<open>catch\<close> (status 500) answers an exception of \<open>createTransfers\<close>, which a batch of
  well-typed file entries does not raise.
\<close>

definition postTransfers ::
  "server list \<Rightarrow> request_body \<Rightarrow> int \<Rightarrow> manager \<Rightarrow> response \<times> manager" where
  "postTransfers servers body now m =
     (case (body_sourceServerId body, body_destServerId body, body_files body) of
        (Some srcId, Some dstId, Some fs) \<Rightarrow>
          if srcId = [] \<or> dstId = [] then
            (Failure 400 ''Missing required fields: sourceServerId, destServerId, files'', m)
          else if length fs = 0 then
            (Failure 400 ''No files specified for transfer'', m)
          else
            (case find (\<lambda>s. id_server s = srcId) servers of
               None \<Rightarrow> (Failure 404 (''Source server not found: '' @ srcId), m)
             | Some sourceServer \<Rightarrow>
            (case find (\<lambda>s. id_server s = dstId) servers of
               None \<Rightarrow> (Failure 404 (''Destination server not found: '' @ dstId), m)
             | Some destServer \<Rightarrow>
                 if srcId = dstId then
                   (Failure 400 ''Source and destination servers must be different'', m)
                 else
                   (let (transferIds, m1) = createTransfers sourceServer destServer fs now m
                    in (Success transferIds, m1))))
      | _ \<Rightarrow>
          (Failure 400 ''Missing required fields: sourceServerId, destServerId, files'', m))"

text \<open>A host id that is missing from the request or names no configured server.\<close>

definition unknown_host :: "server list \<Rightarrow> string option \<Rightarrow> bool" where
  "unknown_host servers v =
     (case v of None \<Rightarrow> True | Some i \<Rightarrow> find (\<lambda>s. id_server s = i) servers = None)"

section \<open>Example configuration\<close>

definition serverA :: server where
  "serverA = \<lparr> id_server = ''server1'', mediaPaths = srcCategories,
               ssh = \<lparr> host = ''192.168.0.105'', port = 22, username = ''plex'' \<rparr> \<rparr>"

definition serverB :: server where
  "serverB = \<lparr> id_server = ''server2'', mediaPaths = dstCategories,
               ssh = \<lparr> host = ''192.168.0.106'', port = 22, username = ''plex'' \<rparr> \<rparr>"

definition movie :: "string \<Rightarrow> file_entry" where
  "movie n = \<lparr> path = ''/a/movies/'' @ n, name = n, size_file = 1024 \<rparr>"

definition episode :: "string \<Rightarrow> file_entry" where
  "episode n = \<lparr> path = ''/b/TV/'' @ n, name = n, size_file = 1024 \<rparr>"

section \<open>Example runs\<close>

text \<open>Four files submitted to a new manager (bound 3): three are admitted, one waits.\<close>

definition four_submitted :: manager where
  "four_submitted =
     run [Submit serverA serverB [movie ''1'', movie ''2'', movie ''3'', movie ''4''] 1000]
       new_manager"

text \<open>Three files submitted and admitted, then the bound is lowered to 1.\<close>

definition bound_lowered :: manager where
  "bound_lowered =
     run [Submit serverA serverB [movie ''1'', movie ''2'', movie ''3''] 1000,
          SetMaxConcurrent 1] new_manager"

text \<open>One file submitted and admitted, then cancelled while its copy is running.\<close>

definition cancelled_while_active :: manager where
  "cancelled_while_active =
     run [Submit serverA serverB [movie ''1''] 1000, Cancel 0 1001] new_manager"

text \<open>
  A batch from server1 to server2 fills the three slots; a batch in the other direction
  waits; then the first copy of the first batch finishes.
\<close>

definition two_batches :: manager where
  "two_batches =
     run [Submit serverA serverB [movie ''1'', movie ''2'', movie ''3''] 1000,
          Submit serverB serverA [episode ''x''] 1001,
          Resolved 0 1002] new_manager"

text \<open>Three rejected request bodies: no files, one host twice, an unknown host.\<close>

definition body_no_files :: request_body where
  "body_no_files =
     \<lparr> body_sourceServerId = Some ''server1'', body_destServerId = Some ''server2'',
       body_files = Some [] \<rparr>"

definition body_same_host :: request_body where
  "body_same_host =
     \<lparr> body_sourceServerId = Some ''server1'', body_destServerId = Some ''server1'',
       body_files = Some [movie ''1''] \<rparr>"

definition body_unknown_host :: request_body where
  "body_unknown_host =
     \<lparr> body_sourceServerId = Some ''server1'', body_destServerId = Some ''server9'',
       body_files = Some [movie ''1''] \<rparr>"

section \<open>Predicates on the manager\<close>

text \<open>No record of the table has status skipped.\<close>

definition no_skipped :: "manager \<Rightarrow> bool" where
  "no_skipped m = list_all (\<lambda>(k, t). status t \<noteq> Skipped) (transfers m)"

text \<open>
  The record of an id as \<open>get\<close> sees it: present and queued or active; present and
  queued.
\<close>

definition waiting_or_running :: "nat \<Rightarrow> manager \<Rightarrow> bool" where
  "waiting_or_running k m =
     (case getTransfer k m of
        None \<Rightarrow> False
      | Some t \<Rightarrow> status t = Queued \<or> status t = Active)"

definition waiting :: "nat \<Rightarrow> manager \<Rightarrow> bool" where
  "waiting k m = (case getTransfer k m of None \<Rightarrow> False | Some t \<Rightarrow> status t = Queued)"

text \<open>The ids of the records whose status is active, in table order.\<close>

definition active_ids :: "manager \<Rightarrow> nat list" where
  "active_ids m = map fst (filter (\<lambda>p. status (snd p) = Active) (transfers m))"

text \<open>
  The bookkeeping of the manager is consistent: no id occurs twice in the table or in
  the set of running ids, the set of running ids holds exactly the ids of the active
  records, and every id of the table was issued before \<open>nextId\<close>.
\<close>

definition well_formed :: "manager \<Rightarrow> bool" where
  "well_formed m =
     (distinct (map fst (transfers m))
      \<and> distinct (activeTransfers m)
      \<and> set (activeTransfers m) = set (active_ids m)
      \<and> list_all (\<lambda>k. k < nextId m) (map fst (transfers m)))"

text \<open>A whole number.\<close>

definition whole :: "rat \<Rightarrow> bool" where
  "whole q = (of_int \<lfloor>q\<rfloor> = q)"

text \<open>The set of running ids is no larger than the bound.\<close>

definition within_bound :: "manager \<Rightarrow> bool" where
  "within_bound m = (of_nat (length (activeTransfers m)) \<le> maxConcurrent m)"

text \<open>
  A run in which every call of \<open>setMaxConcurrent\<close> sets a whole number that is not below
  the number of records that are active at the moment of the call.
\<close>

fun bound_kept :: "event list \<Rightarrow> manager \<Rightarrow> bool" where
  "bound_kept [] m = True"
| "bound_kept (e # es) m =
     ((case e of
         SetMaxConcurrent newMax \<Rightarrow>
           whole newMax \<and> of_nat (active (getStatistics m)) \<le> newMax
       | _ \<Rightarrow> True)
      \<and> bound_kept es (step e m))"

text \<open>
  A run with admissions, a completion, a cancellation, a failure, a sweep, and the
  bound raised to 4 and later lowered to 2 while two transfers are active.
\<close>

definition busy_run :: "event list" where
  "busy_run =
     [Submit serverA serverB [movie ''1'', movie ''2'', movie ''3'', movie ''4'', movie ''5''] 1000,
      SetMaxConcurrent 4,
      Resolved 0 1001,
      Cancel 1 1002,
      Rejected 2 ''rsync failed with exit code 23'' 1003,
      SetMaxConcurrent 2,
      Submit serverB serverA [episode ''x''] 1004,
      ClearOld 0 1005]"

text \<open>A new manager whose bound was set to 2.5.\<close>

definition fractional_bound :: manager where
  "fractional_bound = run [SetMaxConcurrent (5 / 2)] new_manager"

section \<open>Path mapper: results\<close>

lemma split_on_nonempty: "split_on sep s \<noteq> []"
  by (induction s) (auto split: list.splits)

text \<open>
  Claim C5. With source categories movies=/a/movies, tv=/a/tv, root=/a and destination
  categories movies=/b/Movies, tv=/b/TV, root=/b, the path mapper sends
  /a/movies/X/f.mkv to /b/Movies/X/f.mkv, /a/tv/Show/S01/e1.mkv to /b/TV/Show/S01/e1.mkv,
  /a/other/file.mkv to /b/other/file.mkv, and the unmatched /z/file.mkv to /b/file.mkv.
\<close>

theorem buildDestPath_examples:
  "buildDestPath ''/a/movies/X/f.mkv'' srcCategories dstCategories = ''/b/Movies/X/f.mkv''
   \<and> buildDestPath ''/a/tv/Show/S01/e1.mkv'' srcCategories dstCategories = ''/b/TV/Show/S01/e1.mkv''
   \<and> buildDestPath ''/a/other/file.mkv'' srcCategories dstCategories = ''/b/other/file.mkv''
   \<and> buildDestPath ''/z/file.mkv'' srcCategories dstCategories = ''/b/file.mkv''"
  by code_simp

text \<open>
  Claim C8. The result of the path mapper is the destination base joined with the
  remainder, and the base is resolved in this order: the destination's entry for the
  matched category when it is defined (a non-empty string), otherwise the destination's
  root entry when that is defined, otherwise another defined entry (movies before tv).
\<close>

theorem destBasePath_resolution:
  fixes sourcePath :: string and src dst :: media_paths
  defines "rel \<equiv> fst (matchSource sourcePath src)"
    and "mt \<equiv> snd (matchSource sourcePath src)"
  shows "buildDestPath sourcePath src dst =
           collapse_slashes (template (destBasePath mt dst) @ ''/'' @ rel)
       \<and> (truthy (category_of mt dst) \<longrightarrow> destBasePath mt dst = category_of mt dst)
       \<and> (\<not> truthy (category_of mt dst) \<and> truthy (root dst) \<longrightarrow>
            destBasePath mt dst = root dst)
       \<and> (\<not> truthy (category_of mt dst) \<and> \<not> truthy (root dst)
            \<and> (truthy (movies dst) \<or> truthy (tv dst)) \<longrightarrow>
            truthy (destBasePath mt dst)
            \<and> destBasePath mt dst = (if truthy (movies dst) then movies dst else tv dst))"
proof -
  have build: "buildDestPath sourcePath src dst =
                 collapse_slashes (template (destBasePath mt dst) @ ''/'' @ rel)"
    by (simp add: buildDestPath_def rel_def mt_def split: prod.splits)
  have same: "truthy (category_of mt dst) \<longrightarrow> destBasePath mt dst = category_of mt dst"
    by (cases mt) (simp_all add: destBasePath_def category_of_def js_or_def)
  have fallback: "\<not> truthy (category_of mt dst) \<and> truthy (root dst) \<longrightarrow>
                    destBasePath mt dst = root dst"
    by (cases mt) (simp_all add: destBasePath_def category_of_def js_or_def)
  have other: "\<not> truthy (category_of mt dst) \<and> \<not> truthy (root dst)
                 \<and> (truthy (movies dst) \<or> truthy (tv dst)) \<longrightarrow>
               truthy (destBasePath mt dst)
               \<and> destBasePath mt dst = (if truthy (movies dst) then movies dst else tv dst)"
    by (cases mt) (auto simp add: destBasePath_def category_of_def js_or_def)
  from build same fallback other show ?thesis by blast
qed

theorem destBasePath_resolution_witness:
  "truthy (category_of MoviesType dstCategories)
   \<and> buildDestPath ''/a/movies/X/f.mkv'' srcCategories dstCategories = ''/b/Movies/X/f.mkv''
   \<and> \<not> truthy (category_of MoviesType \<lparr> movies = None, tv = Some ''/b/TV'', root = Some ''/b'' \<rparr>)
   \<and> destBasePath (snd (matchSource ''/a/movies/X/f.mkv'' srcCategories))
        \<lparr> movies = None, tv = Some ''/b/TV'', root = Some ''/b'' \<rparr> = Some ''/b''
   \<and> \<not> truthy (root \<lparr> movies = None, tv = Some ''/b/TV'', root = None \<rparr>)
   \<and> truthy (tv \<lparr> movies = None, tv = Some ''/b/TV'', root = None \<rparr>)
   \<and> destBasePath (snd (matchSource ''/a/movies/X/f.mkv'' srcCategories))
        \<lparr> movies = None, tv = Some ''/b/TV'', root = None \<rparr> = Some ''/b/TV''
   \<and> buildDestPath ''/a/movies/X/f.mkv'' srcCategories
        \<lparr> movies = None, tv = Some ''/b/TV'', root = None \<rparr> = ''/b/TV/X/f.mkv''"
proof -
  have mt: "snd (matchSource ''/a/movies/X/f.mkv'' srcCategories) = MoviesType"
    by code_simp
  have rel: "fst (matchSource ''/a/movies/X/f.mkv'' srcCategories) = ''X/f.mkv''"
    by code_simp
  note r1 = destBasePath_resolution
      [of "''/a/movies/X/f.mkv''" srcCategories dstCategories]
  note r2 = destBasePath_resolution
      [of "''/a/movies/X/f.mkv''" srcCategories
          "\<lparr> movies = None, tv = Some ''/b/TV'', root = Some ''/b'' \<rparr>"]
  note r3 = destBasePath_resolution
      [of "''/a/movies/X/f.mkv''" srcCategories
          "\<lparr> movies = None, tv = Some ''/b/TV'', root = None \<rparr>"]
  show ?thesis
    using r1 r2 r3
    by (simp add: mt rel category_of_def truthy_def dstCategories_def template_def)
qed

section \<open>Progress parser: results\<close>






section \<open>Orchestrator: cancelling and submitting\<close>

text \<open>
  Claim C7. For a transfer id whose record is queued or active, the first call of cancel
  returns true and an immediately following second call returns false and changes
  nothing; cancel on a record whose status is completed, failed, cancelled or skipped
  returns false and leaves the manager as it was.
\<close>

theorem cancel_twice:
  assumes "getTransfer transferId m = Some t"
  shows "(status t = Queued \<or> status t = Active \<longrightarrow>
            (\<exists>m1. cancelTransfer transferId now m = Inr (True, m1)
                  \<and> cancelTransfer transferId now' m1 = Inr (False, m1)))
       \<and> (status t = Completed \<or> status t = Failed \<or> status t = Cancelled \<or> status t = Skipped
            \<longrightarrow> cancelTransfer transferId now m = Inr (False, m))"
  using assms
  by (auto simp add: getTransfer_def cancelTransfer_def update_conv')

theorem cancel_twice_witness:
  "map_option status (getTransfer 3 four_submitted) = Some Queued
   \<and> (\<exists>m1. cancelTransfer 3 1001 four_submitted = Inr (True, m1)
           \<and> cancelTransfer 3 1002 m1 = Inr (False, m1))
   \<and> map_option status (getTransfer 0 four_submitted) = Some Active
   \<and> (\<exists>m1. cancelTransfer 0 1001 four_submitted = Inr (True, m1)
           \<and> cancelTransfer 0 1002 m1 = Inr (False, m1))
   \<and> map_option status (getTransfer 0 two_batches) = Some Completed
   \<and> cancelTransfer 0 1003 two_batches = Inr (False, two_batches)"
proof -
  have q: "map_option status (getTransfer 3 four_submitted) = Some Queued"
    by code_simp
  have a: "map_option status (getTransfer 0 four_submitted) = Some Active"
    by code_simp
  have c: "map_option status (getTransfer 0 two_batches) = Some Completed"
    by code_simp
  from q obtain tq where tq: "getTransfer 3 four_submitted = Some tq" "status tq = Queued"
    by auto
  from a obtain ta where ta: "getTransfer 0 four_submitted = Some ta" "status ta = Active"
    by auto
  from c obtain tc where tc: "getTransfer 0 two_batches = Some tc" "status tc = Completed"
    by auto
  from cancel_twice [OF tq(1), of 1001 1002] tq(2)
  have r1: "\<exists>m1. cancelTransfer 3 1001 four_submitted = Inr (True, m1)
                 \<and> cancelTransfer 3 1002 m1 = Inr (False, m1)"
    by simp
  from cancel_twice [OF ta(1), of 1001 1002] ta(2)
  have r2: "\<exists>m1. cancelTransfer 0 1001 four_submitted = Inr (True, m1)
                 \<and> cancelTransfer 0 1002 m1 = Inr (False, m1)"
    by simp
  from cancel_twice [OF tc(1), of 1003] tc(2)
  have r3: "cancelTransfer 0 1003 two_batches = Inr (False, two_batches)"
    by simp
  from q a c r1 r2 r3 show ?thesis by simp
qed

text \<open>
  Claim C9. A submission with an empty file list, with the same id as source and
  destination, or with a host id that is missing or names no configured server is
  answered with an error of status 400 or 404, and the manager (transfer table and queue
  included) is left as it was.
\<close>

theorem rejected_submission:
  assumes "body_files body = Some []
         \<or> body_sourceServerId body = body_destServerId body
         \<or> unknown_host servers (body_sourceServerId body)
         \<or> unknown_host servers (body_destServerId body)"
  shows "\<exists>code msg. postTransfers servers body now m = (Failure code msg, m)
                    \<and> (code = 400 \<or> code = 404)"
  using assms
  by (auto simp add: postTransfers_def unknown_host_def split: option.splits)

theorem rejected_submission_witness:
  "body_files body_no_files = Some []
   \<and> (\<exists>code msg. postTransfers [serverA, serverB] body_no_files 1000 four_submitted
                      = (Failure code msg, four_submitted) \<and> (code = 400 \<or> code = 404))
   \<and> body_sourceServerId body_same_host = body_destServerId body_same_host
   \<and> (\<exists>code msg. postTransfers [serverA, serverB] body_same_host 1000 four_submitted
                      = (Failure code msg, four_submitted) \<and> (code = 400 \<or> code = 404))
   \<and> unknown_host [serverA, serverB] (body_destServerId body_unknown_host)
   \<and> (\<exists>code msg. postTransfers [serverA, serverB] body_unknown_host 1000 four_submitted
                      = (Failure code msg, four_submitted) \<and> (code = 400 \<or> code = 404))"
proof -
  have h1: "body_files body_no_files = Some []"
    by (simp add: body_no_files_def)
  have h2: "body_sourceServerId body_same_host = body_destServerId body_same_host"
    by (simp add: body_same_host_def)
  have h3: "unknown_host [serverA, serverB] (body_destServerId body_unknown_host)"
    by code_simp
  from h1 have p1: "body_files body_no_files = Some []
         \<or> body_sourceServerId body_no_files = body_destServerId body_no_files
         \<or> unknown_host [serverA, serverB] (body_sourceServerId body_no_files)
         \<or> unknown_host [serverA, serverB] (body_destServerId body_no_files)"
    by simp
  from h2 have p2: "body_files body_same_host = Some []
         \<or> body_sourceServerId body_same_host = body_destServerId body_same_host
         \<or> unknown_host [serverA, serverB] (body_sourceServerId body_same_host)
         \<or> unknown_host [serverA, serverB] (body_destServerId body_same_host)"
    by simp
  from h3 have p3: "body_files body_unknown_host = Some []
         \<or> body_sourceServerId body_unknown_host = body_destServerId body_unknown_host
         \<or> unknown_host [serverA, serverB] (body_sourceServerId body_unknown_host)
         \<or> unknown_host [serverA, serverB] (body_destServerId body_unknown_host)"
    by simp
  from h1 h2 h3
    rejected_submission [OF p1, of 1000 four_submitted]
    rejected_submission [OF p2, of 1000 four_submitted]
    rejected_submission [OF p3, of 1000 four_submitted]
  show ?thesis by simp
qed

section \<open>Orchestrator: concrete runs\<close>

text \<open>
  Against claim C1 as stated: three transfers are admitted under the initial bound 3;
  after \<open>setMaxConcurrent(1)\<close> the three are still active, above the bound.
\<close>

theorem active_exceeds_lowered_bound:
  "active (getStatistics bound_lowered) = 3 \<and> maxConcurrent bound_lowered = 1
   \<and> \<not> of_nat (active (getStatistics bound_lowered)) \<le> maxConcurrent bound_lowered"
  by code_simp

text \<open>
  Against claim C3 as stated: a batch of one file submitted to a new manager returns one
  id, and the record of this id is already active when the ids are returned.
\<close>

theorem submitted_record_already_active:
  "fst (createTransfers serverA serverB [movie ''1''] 1000 new_manager) = [0]
   \<and> map_option status
        (getTransfer 0 (snd (createTransfers serverA serverB [movie ''1''] 1000 new_manager)))
      = Some Active"
  by code_simp

text \<open>
  Claim C2 at a failing input. A record that was cancelled while active has status
  cancelled; when its copy later ends, the suspended execution overwrites the status
  with completed (on success) or failed (on failure).
\<close>

theorem cancelled_record_completes:
  "map_option status (getTransfer 0 cancelled_while_active) = Some Cancelled
   \<and> map_option status (getTransfer 0 (step (Resolved 0 1002) cancelled_while_active))
       = Some Completed
   \<and> map_option status (getTransfer 0 (step (Rejected 0 ''rsync failed'' 1002) cancelled_while_active))
       = Some Failed"
  by code_simp

text \<open>
  Claim C4 at a failing input. The record of the second batch is stored with source
  server2 and destination server1; it is admitted by the pass that the first batch's
  completion triggers, and the copy driver is called for it with source server1 and
  destination server2: the command runs on 192.168.0.105 (server1) and copies to
  192.168.0.106 (server2).
\<close>

theorem queued_batch_runs_on_other_hosts:
  "map_option (\<lambda>t. (status t, sourceServerId t, destServerId t)) (getTransfer 3 two_batches)
     = Some (Active, ''server2'', ''server1'')
   \<and> map (\<lambda>c. (id_server (sourceConfig c), id_server (destConfig c)))
         (filter (\<lambda>c. call_transfer c = 3) (rsyncCalls two_batches))
     = [(''server1'', ''server2'')]
   \<and> map (\<lambda>c. (host (ssh (sourceConfig c)), rsyncCommand c))
         (filter (\<lambda>c. call_transfer c = 3) (rsyncCalls two_batches))
     = [(''192.168.0.105'',
         ''rsync -avz --info=progress2 --partial --mkpath '' @ [CHR 0x27] @ ''/b/TV/x''
           @ [CHR 0x27] @ '' plex@192.168.0.106:'' @ [CHR 0x27] @ ''/a/tv/x'' @ [CHR 0x27])]"
  by code_simp

section \<open>Orchestrator: the admission pass\<close>

text \<open>With no free slot the admission pass changes nothing.\<close>

lemma processQueue_full:
  "\<not> of_nat (length (activeTransfers m)) < maxConcurrent m \<Longrightarrow>
   processQueue sourceServer destServer now m = m"
  by (subst processQueue.simps) (simp split: list.splits)

text \<open>
  A property of the manager survives the admission pass when it survives the removal of
  the head of the queue and the admission of a queued head while a slot is free.
\<close>

lemma processQueue_preserves:
  assumes skip: "\<And>m k rest. I m \<Longrightarrow> queue m = k # rest \<Longrightarrow> I (m\<lparr> queue := rest \<rparr>)"
    and admit: "\<And>m k rest t src dst clock. I m \<Longrightarrow> queue m = k # rest \<Longrightarrow>
        of_nat (length (activeTransfers m)) < maxConcurrent m \<Longrightarrow>
        map_of (transfers m) k = Some t \<Longrightarrow> status t = Queued \<Longrightarrow>
        I (startTransfer k src dst clock
             (m\<lparr> queue := rest, activeTransfers := set_add k (activeTransfers m) \<rparr>))"
    and start: "I m"
  shows "I (processQueue sourceServer destServer now m)"
  using start
proof (induction sourceServer destServer now m rule: processQueue.induct)
  case (1 sourceServer destServer now m)
  show ?case
  proof (cases "queue m")
    case Nil
    then show ?thesis using "1.prems" by (subst processQueue.simps) simp
  next
    case (Cons k rest)
    show ?thesis
    proof (cases "of_nat (length (activeTransfers m)) < maxConcurrent m")
      case False
      then show ?thesis using "1.prems" by (simp add: processQueue_full)
    next
      case True
      let ?m1 = "m\<lparr> queue := rest \<rparr>"
      have I1: "I ?m1" using skip [OF "1.prems" Cons] .
      show ?thesis
      proof (cases "map_of (transfers m) k")
        case None
        have "processQueue sourceServer destServer now m =
              processQueue sourceServer destServer now ?m1"
          using Cons True None by (subst processQueue.simps) simp
        moreover have "I (processQueue sourceServer destServer now ?m1)"
          using "1.IH"(1) [OF Cons True refl _ I1] None by simp
        ultimately show ?thesis by simp
      next
        case (Some t)
        show ?thesis
        proof (cases "status t = Queued")
          case False
          have "processQueue sourceServer destServer now m =
                processQueue sourceServer destServer now ?m1"
            using Cons True Some False by (subst processQueue.simps) simp
          moreover have "I (processQueue sourceServer destServer now ?m1)"
            using "1.IH"(2) [OF Cons True refl _ _ I1] Some False by simp
          ultimately show ?thesis by simp
        next
          case Queued: True
          let ?m2 = "startTransfer k sourceServer destServer now
                       (?m1\<lparr> activeTransfers := set_add k (activeTransfers ?m1) \<rparr>)"
          have eq: "?m1\<lparr> activeTransfers := set_add k (activeTransfers ?m1) \<rparr> =
                    m\<lparr> queue := rest, activeTransfers := set_add k (activeTransfers m) \<rparr>"
            by simp
          have I2: "I ?m2"
            by (subst eq) (rule admit [OF "1.prems" Cons True Some Queued])
          have "processQueue sourceServer destServer now m =
                processQueue sourceServer destServer now ?m2"
            using Cons True Some Queued by (subst processQueue.simps) simp
          moreover have "I (processQueue sourceServer destServer now ?m2)"
            using "1.IH"(3) [OF Cons True refl _ _ I2] Some Queued by simp
          ultimately show ?thesis by simp
        qed
      qed
    qed
  qed
qed

section \<open>Orchestrator: no record is ever skipped\<close>

lemma set_update_subset: "set (AList.update k v al) \<subseteq> insert (k, v) (set al)"
  by (induction al) auto

lemma set_delete_subset: "set (AList.delete k al) \<subseteq> set al"
  by (auto simp add: AList.delete_eq)

lemma set_foldl_delete_subset: "set (foldl (\<lambda>ts k. AList.delete k ts) al ks) \<subseteq> set al"
proof (induction ks arbitrary: al)
  case Nil
  show ?case by simp
next
  case (Cons k ks)
  have "set (foldl (\<lambda>ts k. AList.delete k ts) (AList.delete k al) ks) \<subseteq> set (AList.delete k al)"
    by (rule Cons.IH)
  also have "\<dots> \<subseteq> set al" by (rule set_delete_subset)
  finally show ?case by simp
qed

lemma no_skipped_iff: "no_skipped m \<longleftrightarrow> (\<forall>(k, t) \<in> set (transfers m). status t \<noteq> Skipped)"
  by (simp add: no_skipped_def list_all_iff)

lemma no_skipped_update:
  assumes "no_skipped m" and "status v \<noteq> Skipped"
    and "transfers m' = AList.update k v (transfers m)"
  shows "no_skipped m'"
  using assms set_update_subset [of k v "transfers m"]
  by (auto simp add: no_skipped_iff)

lemma no_skipped_subset:
  assumes "no_skipped m" and "set (transfers m') \<subseteq> set (transfers m)"
  shows "no_skipped m'"
  using assms by (auto simp add: no_skipped_iff)

lemma no_skipped_lookup:
  assumes "no_skipped m" and "map_of (transfers m) k = Some t"
  shows "status t \<noteq> Skipped"
  using assms map_of_SomeD [of "transfers m" k t] by (auto simp add: no_skipped_iff)

lemma no_skipped_mutate:
  assumes "no_skipped m" and "\<And>t. status t \<noteq> Skipped \<Longrightarrow> status (f t) \<noteq> Skipped"
  shows "no_skipped (mutate k f m)"
proof (cases "map_of (transfers m) k")
  case None
  then show ?thesis using assms(1) by (simp add: mutate_def)
next
  case (Some t)
  have "status (f t) \<noteq> Skipped"
    using assms(2) no_skipped_lookup [OF assms(1) Some] .
  then show ?thesis
    using Some no_skipped_update [OF assms(1), of "f t" _ k] by (simp add: mutate_def)
qed

lemma no_skipped_startTransfer:
  assumes "no_skipped m"
  shows "no_skipped (startTransfer k sourceServer destServer now m)"
proof (cases "map_of (transfers m) k")
  case None
  then show ?thesis using assms by (simp add: startTransfer_def)
next
  case (Some t)
  show ?thesis
    by (rule no_skipped_update [OF assms, of "t\<lparr> status := Active, startedAt := Some now \<rparr>" _ k])
       (simp_all add: startTransfer_def Some)
qed

lemma no_skipped_processQueue:
  assumes "no_skipped m"
  shows "no_skipped (processQueue sourceServer destServer now m)"
proof (rule processQueue_preserves [where I = no_skipped, OF _ _ assms])
  fix m k rest
  assume "no_skipped m"
  then show "no_skipped (m\<lparr> queue := rest \<rparr>)" by (simp add: no_skipped_def)
next
  fix m k rest t src dst clock
  assume "no_skipped m"
  then have "no_skipped (m\<lparr> queue := rest, activeTransfers := set_add k (activeTransfers m) \<rparr>)"
    by (simp add: no_skipped_def)
  then show "no_skipped (startTransfer k src dst clock
      (m\<lparr> queue := rest, activeTransfers := set_add k (activeTransfers m) \<rparr>))"
    by (rule no_skipped_startTransfer)
qed

lemma createOne_fst [simp]:
  "fst (createOne sourceServer destServer now f m) = nextId m"
  by (simp add: createOne_def uuidv4_def)

lemma createOne_snd:
  "snd (createOne sourceServer destServer now f m) =
     m\<lparr> nextId := Suc (nextId m),
        transfers := AList.update (nextId m)
                       (newTransfer (nextId m) sourceServer destServer f now) (transfers m),
        queue := queue m @ [nextId m] \<rparr>"
  by (simp add: createOne_def uuidv4_def)

lemma createLoop_Cons_fst:
  "fst (createLoop sourceServer destServer now (f # files) m) =
     nextId m # fst (createLoop sourceServer destServer now files
                       (snd (createOne sourceServer destServer now f m)))"
  by (simp add: case_prod_beta)

lemma createLoop_Cons_snd:
  "snd (createLoop sourceServer destServer now (f # files) m) =
     snd (createLoop sourceServer destServer now files
            (snd (createOne sourceServer destServer now f m)))"
  by (simp add: case_prod_beta)

lemma no_skipped_createOne:
  assumes "no_skipped m"
  shows "no_skipped (snd (createOne sourceServer destServer now f m))"
  by (rule no_skipped_update [OF assms,
        of "newTransfer (nextId m) sourceServer destServer f now" _ "nextId m"])
     (simp_all add: createOne_snd newTransfer_def)

lemma no_skipped_createLoop:
  assumes "no_skipped m"
  shows "no_skipped (snd (createLoop sourceServer destServer now files m))"
  using assms
proof (induction files arbitrary: m)
  case Nil
  then show ?case by simp
next
  case (Cons f files)
  from Cons.prems have "no_skipped (snd (createOne sourceServer destServer now f m))"
    by (rule no_skipped_createOne)
  then show ?case
    unfolding createLoop_Cons_snd by (rule Cons.IH)
qed

lemma no_skipped_settle:
  assumes "no_skipped m" and "\<And>t. status t \<noteq> Skipped \<Longrightarrow> status (outcome t) \<noteq> Skipped"
  shows "no_skipped (settle k outcome now m)"
proof (cases "map_of (pending m) k")
  case None
  then show ?thesis using assms(1) by (simp add: settle_def)
next
  case (Some servers)
  let ?m1 = "m\<lparr> pending := AList.delete k (pending m) \<rparr>"
  have "no_skipped ?m1" using assms(1) by (simp add: no_skipped_def)
  then have "no_skipped (mutate k outcome ?m1)"
    using assms(2) by (rule no_skipped_mutate)
  then have "no_skipped ((mutate k outcome ?m1)
                \<lparr> activeTransfers := removeAll k (activeTransfers m) \<rparr>)"
    by (simp add: no_skipped_def)
  then show ?thesis
    using Some by (simp add: settle_def no_skipped_processQueue split: prod.splits)
qed

lemma no_skipped_step:
  assumes "no_skipped m"
  shows "no_skipped (step e m)"
proof (cases e)
  case (Submit sourceServer destServer files now)
  then show ?thesis
    using no_skipped_processQueue [OF no_skipped_createLoop [OF assms]]
    by (simp add: createTransfers_def case_prod_beta)
next
  case (Progress k p)
  then show ?thesis
    using assms no_skipped_mutate [OF assms]
    by (simp add: progressCallback_def split: option.splits)
next
  case (Resolved k now)
  then show ?thesis
    using assms by (simp add: rsyncResolved_def no_skipped_settle)
next
  case (Rejected k message now)
  then show ?thesis
    using assms by (simp add: rsyncRejected_def no_skipped_settle)
next
  case (Cancel k now)
  show ?thesis
  proof (cases "map_of (transfers m) k")
    case None
    then show ?thesis using Cancel assms by (simp add: cancelTransfer_def)
  next
    case (Some t)
    have upd: "\<And>m'. transfers m' =
        AList.update k (t\<lparr> status := Cancelled, completedAt := Some now \<rparr>) (transfers m)
        \<Longrightarrow> no_skipped m'"
      by (rule no_skipped_update [OF assms]) simp_all
    show ?thesis
      using Cancel Some assms by (auto simp add: cancelTransfer_def intro!: upd)
  qed
next
  case (SetMaxConcurrent newMax)
  then show ?thesis using assms by (simp add: setMaxConcurrent_def no_skipped_def)
next
  case (ClearOld maxAge now)
  show ?thesis
    unfolding ClearOld step.simps clearOldTransfers_def Let_def
    by (rule no_skipped_subset [OF assms]) (simp add: set_foldl_delete_subset)
qed

lemma no_skipped_run: "no_skipped m \<Longrightarrow> no_skipped (run evs m)"
  by (induction evs arbitrary: m) (simp_all add: no_skipped_step)

lemma no_skipped_count: "no_skipped m \<Longrightarrow> skipped (getStatistics m) = 0"
  by (auto simp add: getStatistics_def count_status_def no_skipped_iff filter_empty_conv)

text \<open>
  Claim C10. No operation of the orchestrator gives a record the status skipped: a
  table without skipped records has none after any event, so every state reachable from
  a new manager is free of them and its statistics report skipped = 0.
\<close>

theorem never_skipped:
  "(no_skipped m \<longrightarrow> no_skipped (step e m))
   \<and> no_skipped (run evs new_manager)
   \<and> skipped (getStatistics (run evs new_manager)) = 0"
proof -
  have init: "no_skipped new_manager" by (simp add: no_skipped_def new_manager_def)
  from init have "no_skipped (run evs new_manager)" by (rule no_skipped_run)
  then show ?thesis by (simp add: no_skipped_step no_skipped_count)
qed

theorem never_skipped_witness:
  "no_skipped four_submitted
   \<and> no_skipped (step (Cancel 3 1001) four_submitted)
   \<and> skipped (getStatistics
        (run [Submit serverA serverB [movie ''1'', movie ''2''] 1000, Resolved 0 1001,
              Rejected 1 ''rsync failed with exit code 23'' 1002, ClearOld 0 1003]
           new_manager)) = 0"
proof -
  have h: "no_skipped four_submitted" by code_simp
  from h never_skipped [of four_submitted "Cancel 3 1001"
      "[Submit serverA serverB [movie ''1'', movie ''2''] 1000, Resolved 0 1001,
        Rejected 1 ''rsync failed with exit code 23'' 1002, ClearOld 0 1003]"]
  show ?thesis by simp
qed

section \<open>Orchestrator: submitting a batch\<close>

lemma createLoop_length:
  "length (fst (createLoop sourceServer destServer now files m)) = length files"
  by (induction files arbitrary: m) (simp_all add: createLoop_Cons_fst del: createLoop.simps(2))

lemma createLoop_nextId:
  "nextId (snd (createLoop sourceServer destServer now files m)) = nextId m + length files"
  by (induction files arbitrary: m)
     (simp_all add: createLoop_Cons_snd createOne_snd del: createLoop.simps(2))

lemma createLoop_slots:
  "activeTransfers (snd (createLoop sourceServer destServer now files m)) = activeTransfers m
   \<and> maxConcurrent (snd (createLoop sourceServer destServer now files m)) = maxConcurrent m"
  by (induction files arbitrary: m)
     (simp_all add: createLoop_Cons_snd createOne_snd del: createLoop.simps(2))

lemma createLoop_ids_ge:
  "k \<in> set (fst (createLoop sourceServer destServer now files m)) \<Longrightarrow> nextId m \<le> k"
proof (induction files arbitrary: m)
  case Nil
  then show ?case by simp
next
  case (Cons f files)
  from Cons.prems consider "k = nextId m"
    | "k \<in> set (fst (createLoop sourceServer destServer now files
                        (snd (createOne sourceServer destServer now f m))))"
    by (auto simp add: createLoop_Cons_fst simp del: createLoop.simps(2))
  then show ?case
  proof cases
    case 1
    then show ?thesis by simp
  next
    case 2
    from Cons.IH [OF 2] show ?thesis by (simp add: createOne_snd)
  qed
qed

lemma createLoop_old:
  "k < nextId m \<Longrightarrow>
   map_of (transfers (snd (createLoop sourceServer destServer now files m))) k =
   map_of (transfers m) k"
proof (induction files arbitrary: m)
  case Nil
  then show ?case by simp
next
  case (Cons f files)
  let ?m2 = "snd (createOne sourceServer destServer now f m)"
  have "k < nextId ?m2" using Cons.prems by (simp add: createOne_snd)
  from Cons.IH [OF this]
  have "map_of (transfers (snd (createLoop sourceServer destServer now files ?m2))) k =
        map_of (transfers ?m2) k" .
  also have "\<dots> = map_of (transfers m) k"
    using Cons.prems by (simp add: createOne_snd update_conv')
  finally show ?case by (simp add: createLoop_Cons_snd del: createLoop.simps(2))
qed

lemma createLoop_new:
  "k \<in> set (fst (createLoop sourceServer destServer now files m)) \<Longrightarrow>
   waiting k (snd (createLoop sourceServer destServer now files m))"
proof (induction files arbitrary: m)
  case Nil
  then show ?case by simp
next
  case (Cons f files)
  let ?m2 = "snd (createOne sourceServer destServer now f m)"
  from Cons.prems consider "k = nextId m"
    | "k \<in> set (fst (createLoop sourceServer destServer now files ?m2))"
    by (auto simp add: createLoop_Cons_fst simp del: createLoop.simps(2))
  then show ?case
  proof cases
    case 1
    have "k < nextId ?m2" using 1 by (simp add: createOne_snd)
    from createLoop_old [OF this]
    have "map_of (transfers (snd (createLoop sourceServer destServer now files ?m2))) k =
          map_of (transfers ?m2) k" .
    also have "\<dots> = Some (newTransfer (nextId m) sourceServer destServer f now)"
      using 1 by (simp add: createOne_snd update_conv')
    finally show ?thesis
      by (simp add: waiting_def getTransfer_def createLoop_Cons_snd newTransfer_def
               del: createLoop.simps(2))
  next
    case 2
    from Cons.IH [OF 2] show ?thesis
      by (simp add: createLoop_Cons_snd del: createLoop.simps(2))
  qed
qed

lemma waiting_or_running_processQueue:
  assumes "waiting_or_running k m"
  shows "waiting_or_running k (processQueue sourceServer destServer now m)"
proof (rule processQueue_preserves [where I = "waiting_or_running k", OF _ _ assms])
  fix m :: manager and j rest
  assume "waiting_or_running k m"
  then show "waiting_or_running k (m\<lparr> queue := rest \<rparr>)"
    by (simp add: waiting_or_running_def getTransfer_def)
next
  fix m :: manager and j rest t src dst clock
  assume "waiting_or_running k m" and "map_of (transfers m) j = Some t"
  then show "waiting_or_running k (startTransfer j src dst clock
      (m\<lparr> queue := rest, activeTransfers := set_add j (activeTransfers m) \<rparr>))"
    by (simp add: waiting_or_running_def getTransfer_def startTransfer_def update_conv')
qed

text \<open>
  Claim C3, amended. For a batch of n files \<open>createTransfers\<close> returns exactly n ids,
  and when it returns each id resolves via \<open>get\<close> to a record whose status is queued
  or active: the admission pass runs inside the call, so the records it admits are
  already active. When no slot is free at submission, every returned id is queued.
\<close>

theorem submitted_records:
  assumes "createTransfers sourceServer destServer files now m = (transferIds, m')"
  shows "length transferIds = length files
       \<and> (\<forall>k \<in> set transferIds. waiting_or_running k m')
       \<and> (\<not> of_nat (length (activeTransfers m)) < maxConcurrent m \<longrightarrow>
            (\<forall>k \<in> set transferIds. waiting k m'))"
proof -
  let ?c = "createLoop sourceServer destServer now files m"
  from assms have ids: "transferIds = fst ?c"
    and m': "m' = processQueue sourceServer destServer now (snd ?c)"
    by (simp_all add: createTransfers_def case_prod_beta)
  have len: "length transferIds = length files"
    by (simp add: ids createLoop_length)
  have some: "\<forall>k \<in> set transferIds. waiting_or_running k m'"
  proof
    fix k assume "k \<in> set transferIds"
    then have "waiting k (snd ?c)" unfolding ids by (rule createLoop_new)
    then have "waiting_or_running k (snd ?c)"
      by (simp add: waiting_def waiting_or_running_def split: option.splits)
    then show "waiting_or_running k m'"
      unfolding m' by (rule waiting_or_running_processQueue)
  qed
  have full: "\<not> of_nat (length (activeTransfers m)) < maxConcurrent m \<longrightarrow>
              (\<forall>k \<in> set transferIds. waiting k m')"
  proof
    assume "\<not> of_nat (length (activeTransfers m)) < maxConcurrent m"
    then have "\<not> of_nat (length (activeTransfers (snd ?c))) < maxConcurrent (snd ?c)"
      by (simp add: createLoop_slots)
    then have "m' = snd ?c" unfolding m' by (rule processQueue_full)
    then show "\<forall>k \<in> set transferIds. waiting k m'"
      by (simp add: ids createLoop_new)
  qed
  from len some full show ?thesis by blast
qed

theorem submitted_records_witness:
  "createTransfers serverA serverB [movie ''1'', movie ''2'', movie ''3'', movie ''4''] 1000
     new_manager = ([0, 1, 2, 3], four_submitted)
   \<and> map (\<lambda>k. map_option status (getTransfer k four_submitted)) [0, 1, 2, 3]
       = [Some Active, Some Active, Some Active, Some Queued]
   \<and> list_all (\<lambda>k. waiting_or_running k four_submitted) [0, 1, 2, 3]
   \<and> \<not> of_nat (length (activeTransfers four_submitted)) < maxConcurrent four_submitted
   \<and> list_all (\<lambda>k. waiting k
        (snd (createTransfers serverA serverB [movie ''5'', movie ''6''] 1001 four_submitted)))
        (fst (createTransfers serverA serverB [movie ''5'', movie ''6''] 1001 four_submitted))"
proof -
  have c1: "createTransfers serverA serverB [movie ''1'', movie ''2'', movie ''3'', movie ''4'']
              1000 new_manager = ([0, 1, 2, 3], four_submitted)"
    by code_simp
  have st: "map (\<lambda>k. map_option status (getTransfer k four_submitted)) [0, 1, 2, 3]
       = [Some Active, Some Active, Some Active, Some Queued]"
    by code_simp
  have full: "\<not> of_nat (length (activeTransfers four_submitted)) < maxConcurrent four_submitted"
    by code_simp
  have c2: "createTransfers serverA serverB [movie ''5'', movie ''6''] 1001 four_submitted =
      (fst (createTransfers serverA serverB [movie ''5'', movie ''6''] 1001 four_submitted),
       snd (createTransfers serverA serverB [movie ''5'', movie ''6''] 1001 four_submitted))"
    by simp
  from submitted_records [OF c1] submitted_records [OF c2] full c1 st
  show ?thesis by (simp add: list_all_iff)
qed

section \<open>Orchestrator: the concurrency bound\<close>

lemma active_ids_iff:
  assumes "distinct (map fst (transfers m))"
  shows "k \<in> set (active_ids m) \<longleftrightarrow> (\<exists>t. map_of (transfers m) k = Some t \<and> status t = Active)"
proof
  assume "k \<in> set (active_ids m)"
  then obtain t where "(k, t) \<in> set (transfers m)" and "status t = Active"
    by (auto simp add: active_ids_def)
  then show "\<exists>t. map_of (transfers m) k = Some t \<and> status t = Active"
    using assms by auto
next
  assume "\<exists>t. map_of (transfers m) k = Some t \<and> status t = Active"
  then obtain t where "map_of (transfers m) k = Some t" and a: "status t = Active"
    by blast
  then have "(k, t) \<in> set (transfers m)" by (simp add: map_of_SomeD)
  with a have "(k, t) \<in> set (filter (\<lambda>p. status (snd p) = Active) (transfers m))"
    by simp
  then have "fst (k, t) \<in> fst ` set (filter (\<lambda>p. status (snd p) = Active) (transfers m))"
    by (rule imageI)
  then show "k \<in> set (active_ids m)" by (simp add: active_ids_def)
qed

lemma well_formedI:
  assumes "distinct (map fst (transfers m))" and "distinct (activeTransfers m)"
    and "\<And>k. k \<in> set (activeTransfers m) \<longleftrightarrow>
              (\<exists>t. map_of (transfers m) k = Some t \<and> status t = Active)"
    and "\<And>k t. map_of (transfers m) k = Some t \<Longrightarrow> k < nextId m"
  shows "well_formed m"
proof -
  have "set (activeTransfers m) = set (active_ids m)"
    using assms(3) active_ids_iff [OF assms(1)] by blast
  moreover have "list_all (\<lambda>k. k < nextId m) (map fst (transfers m))"
    unfolding list_all_iff
  proof
    fix k assume "k \<in> set (map fst (transfers m))"
    then obtain t where "(k, t) \<in> set (transfers m)" by auto
    then have "map_of (transfers m) k = Some t" using assms(1) by simp
    then show "k < nextId m" by (rule assms(4))
  qed
  ultimately show ?thesis using assms(1,2) by (simp add: well_formed_def)
qed

lemma wf_keys: "well_formed m \<Longrightarrow> distinct (map fst (transfers m))"
  by (simp add: well_formed_def)

lemma wf_slots: "well_formed m \<Longrightarrow> distinct (activeTransfers m)"
  by (simp add: well_formed_def)

lemma wf_active:
  "well_formed m \<Longrightarrow>
   k \<in> set (activeTransfers m) \<longleftrightarrow> (\<exists>t. map_of (transfers m) k = Some t \<and> status t = Active)"
  using active_ids_iff [of m k] by (simp add: well_formed_def)

lemma wf_fresh:
  assumes "well_formed m" and "map_of (transfers m) k = Some t"
  shows "k < nextId m"
proof -
  from assms(1) have all: "\<forall>j \<in> set (map fst (transfers m)). j < nextId m"
    by (simp add: well_formed_def list_all_iff)
  from assms(2) have "(k, t) \<in> set (transfers m)" by (rule map_of_SomeD)
  then have "fst (k, t) \<in> fst ` set (transfers m)" by (rule imageI)
  then have "k \<in> set (map fst (transfers m))" by simp
  with all show ?thesis by blast
qed

lemma wf_fields:
  assumes "well_formed m" and "transfers m' = transfers m"
    and "activeTransfers m' = activeTransfers m" and "nextId m' = nextId m"
  shows "well_formed m'"
  using assms by (simp add: well_formed_def active_ids_def)

lemma active_count:
  assumes "well_formed m"
  shows "active (getStatistics m) = length (activeTransfers m)"
proof -
  have "active (getStatistics m) = length (active_ids m)"
    by (simp add: getStatistics_def count_status_def active_ids_def filter_map o_def)
  also have "\<dots> = card (set (active_ids m))"
  proof -
    have "distinct (active_ids m)"
      unfolding active_ids_def using wf_keys [OF assms] by (rule distinct_map_filter)
    then show ?thesis by (simp add: distinct_card)
  qed
  also have "\<dots> = card (set (activeTransfers m))"
    using assms by (simp add: well_formed_def)
  also have "\<dots> = length (activeTransfers m)"
    using wf_slots [OF assms] by (simp add: distinct_card)
  finally show ?thesis .
qed


lemma wf_update:
  assumes wf: "well_formed m" and old: "map_of (transfers m) k = Some t"
    and tr: "transfers m' = AList.update k t' (transfers m)"
    and ac: "set (activeTransfers m') =
               (if status t' = Active then insert k (set (activeTransfers m))
                else set (activeTransfers m) - {k})"
    and di: "distinct (activeTransfers m')"
    and nx: "nextId m' = nextId m"
  shows "well_formed m'"
proof (rule well_formedI)
  show "distinct (map fst (transfers m'))"
    unfolding tr using wf_keys [OF wf] by (rule distinct_update)
  show "distinct (activeTransfers m')" by (rule di)
next
  fix j
  have look: "map_of (transfers m') j = (if j = k then Some t' else map_of (transfers m) j)"
    by (simp add: tr update_conv')
  show "j \<in> set (activeTransfers m') \<longleftrightarrow>
        (\<exists>x. map_of (transfers m') j = Some x \<and> status x = Active)"
  proof (cases "j = k")
    case True
    have "map_of (transfers m') k = Some t'" by (simp add: tr update_conv')
    then show ?thesis using True by (simp add: ac)
  next
    case False
    then have "j \<in> set (activeTransfers m') \<longleftrightarrow> j \<in> set (activeTransfers m)"
      by (simp add: ac)
    also have "\<dots> \<longleftrightarrow> (\<exists>x. map_of (transfers m) j = Some x \<and> status x = Active)"
      by (rule wf_active [OF wf])
    finally show ?thesis using False by (simp add: look)
  qed
next
  fix j x
  assume "map_of (transfers m') j = Some x"
  then have "j = k \<or> map_of (transfers m) j = Some x"
    by (simp add: tr update_conv' split: if_splits)
  then show "j < nextId m'"
    using wf_fresh [OF wf old] wf_fresh [OF wf, of j x] by (auto simp add: nx)
qed

lemma wf_createOne:
  assumes wf: "well_formed m"
  shows "well_formed (snd (createOne sourceServer destServer now f m))"
proof (rule well_formedI)
  let ?m' = "snd (createOne sourceServer destServer now f m)"
  let ?t = "newTransfer (nextId m) sourceServer destServer f now"
  have tr: "transfers ?m' = AList.update (nextId m) ?t (transfers m)"
    and ac: "activeTransfers ?m' = activeTransfers m"
    and nx: "nextId ?m' = Suc (nextId m)"
    by (simp_all add: createOne_snd)
  have absent: "map_of (transfers m) (nextId m) = None"
  proof (cases "map_of (transfers m) (nextId m)")
    case None
    then show ?thesis .
  next
    case (Some x)
    from wf_fresh [OF wf Some] show ?thesis by simp
  qed
  show "distinct (map fst (transfers ?m'))"
    unfolding tr using wf_keys [OF wf] by (rule distinct_update)
  show "distinct (activeTransfers ?m')"
    unfolding ac by (rule wf_slots [OF wf])
  show "j \<in> set (activeTransfers ?m') \<longleftrightarrow>
        (\<exists>x. map_of (transfers ?m') j = Some x \<and> status x = Active)" for j
  proof (cases "j = nextId m")
    case True
    have "j \<notin> set (activeTransfers m)"
      using wf_active [OF wf, of j] absent True by simp
    moreover have "status ?t \<noteq> Active" by (simp add: newTransfer_def)
    ultimately show ?thesis using True by (simp add: tr ac update_conv')
  next
    case False
    then show ?thesis using wf_active [OF wf, of j] by (simp add: tr ac update_conv')
  qed
  show "j < nextId ?m'" if "map_of (transfers ?m') j = Some x" for j x
  proof -
    from that have "j = nextId m \<or> map_of (transfers m) j = Some x"
      by (simp add: tr update_conv' split: if_splits)
    then show ?thesis using wf_fresh [OF wf, of j x] by (auto simp add: nx)
  qed
qed

lemma wf_createLoop:
  assumes "well_formed m"
  shows "well_formed (snd (createLoop sourceServer destServer now files m))"
  using assms
proof (induction files arbitrary: m)
  case Nil
  then show ?case by simp
next
  case (Cons f files)
  from Cons.prems have "well_formed (snd (createOne sourceServer destServer now f m))"
    by (rule wf_createOne)
  then show ?case unfolding createLoop_Cons_snd by (rule Cons.IH)
qed

lemma set_set_add: "set (set_add k xs) = insert k (set xs)"
  by (auto simp add: set_add_def)

lemma distinct_set_add: "distinct xs \<Longrightarrow> distinct (set_add k xs)"
  by (simp add: set_add_def)

lemma length_set_add: "length (set_add k xs) \<le> Suc (length xs)"
  by (simp add: set_add_def)

lemma wf_admit:
  assumes wf: "well_formed m" and old: "map_of (transfers m) k = Some t"
  shows "well_formed (startTransfer k sourceServer destServer now
           (m\<lparr> queue := rest, activeTransfers := set_add k (activeTransfers m) \<rparr>))"
  by (rule wf_update [OF wf old, of _ "t\<lparr> status := Active, startedAt := Some now \<rparr>"])
     (simp_all add: startTransfer_def old set_set_add distinct_set_add wf_slots [OF wf])

lemma wf_processQueue:
  assumes "well_formed m"
  shows "well_formed (processQueue sourceServer destServer now m)"
proof (rule processQueue_preserves [where I = well_formed, OF _ _ assms])
  fix m :: manager and k rest
  assume "well_formed m"
  then show "well_formed (m\<lparr> queue := rest \<rparr>)" by (rule wf_fields) simp_all
next
  fix m :: manager and k rest t src dst clock
  assume "well_formed m" and "map_of (transfers m) k = Some t"
  then show "well_formed (startTransfer k src dst clock
      (m\<lparr> queue := rest, activeTransfers := set_add k (activeTransfers m) \<rparr>))"
    by (rule wf_admit)
qed

lemma wf_mutate:
  assumes wf: "well_formed m" and same: "\<And>t. status (f t) = status t"
  shows "well_formed (mutate k f m)"
proof (cases "map_of (transfers m) k")
  case None
  then show ?thesis using wf by (simp add: mutate_def)
next
  case (Some t)
  have "k \<in> set (activeTransfers m) \<longleftrightarrow> status t = Active"
    using wf_active [OF wf, of k] Some by simp
  then have "set (activeTransfers m) =
      (if status (f t) = Active then insert k (set (activeTransfers m))
       else set (activeTransfers m) - {k})"
    by (auto simp add: same)
  then show ?thesis
    using wf_slots [OF wf]
    by (intro wf_update [OF wf Some, of _ "f t"]) (simp_all add: mutate_def Some)
qed

lemma wf_retire:
  assumes wf: "well_formed m" and fin: "\<And>t. status (f t) \<noteq> Active"
  shows "well_formed ((mutate k f m)\<lparr> activeTransfers := removeAll k (activeTransfers m) \<rparr>)"
proof (cases "map_of (transfers m) k")
  case None
  have "k \<notin> set (activeTransfers m)"
    using wf_active [OF wf, of k] None by simp
  then have "removeAll k (activeTransfers m) = activeTransfers m" by simp
  then show ?thesis using wf None by (simp add: mutate_def)
next
  case (Some t)
  show ?thesis
    by (rule wf_update [OF wf Some, of _ "f t"])
       (simp_all add: mutate_def Some fin distinct_removeAll wf_slots [OF wf])
qed

lemma wf_settle:
  assumes wf: "well_formed m" and fin: "\<And>t. status (outcome t) \<noteq> Active"
  shows "well_formed (settle k outcome now m)"
proof (cases "map_of (pending m) k")
  case None
  then show ?thesis using wf by (simp add: settle_def)
next
  case (Some servers)
  let ?m1 = "m\<lparr> pending := AList.delete k (pending m) \<rparr>"
  have "well_formed ?m1" by (rule wf_fields [OF wf]) simp_all
  then have "well_formed ((mutate k outcome ?m1)
      \<lparr> activeTransfers := removeAll k (activeTransfers ?m1) \<rparr>)"
    using fin by (rule wf_retire)
  then show ?thesis
    using Some by (simp add: settle_def wf_processQueue split: prod.splits)
qed

lemma wf_cancel:
  assumes wf: "well_formed m" and ok: "cancelTransfer k now m = Inr (flag, m')"
  shows "well_formed m'"
proof (cases "map_of (transfers m) k")
  case None
  then show ?thesis using ok by (simp add: cancelTransfer_def)
next
  case (Some t)
  let ?t' = "t\<lparr> status := Cancelled, completedAt := Some now \<rparr>"
  consider (queued) "status t = Queued" | (active) "status t = Active"
    | (other) "status t \<noteq> Queued" "status t \<noteq> Active"
    by blast
  then show ?thesis
  proof cases
    case queued
    then have m': "m' = m\<lparr> queue := remove1 k (queue m),
                           transfers := AList.update k ?t' (transfers m) \<rparr>"
      using ok Some by (simp add: cancelTransfer_def)
    have "k \<notin> set (activeTransfers m)"
      using wf_active [OF wf, of k] Some queued by simp
    then show ?thesis
      using wf_slots [OF wf]
      by (intro wf_update [OF wf Some, of _ ?t']) (simp_all add: m')
  next
    case active
    then have m': "m' = m\<lparr> transfers := AList.update k ?t' (transfers m),
                           activeTransfers := removeAll k (activeTransfers m) \<rparr>"
      using ok Some by (simp add: cancelTransfer_def)
    show ?thesis
      by (rule wf_update [OF wf Some, of _ ?t'])
         (simp_all add: m' distinct_removeAll wf_slots [OF wf])
  next
    case other
    then have "m' = m" using ok Some by (simp add: cancelTransfer_def)
    then show ?thesis using wf by simp
  qed
qed


lemma map_of_foldl_delete:
  "map_of (foldl (\<lambda>ts k. AList.delete k ts) al ks) j =
     (if j \<in> set ks then None else map_of al j)"
  by (induction ks arbitrary: al) (simp_all add: delete_conv')

lemma distinct_foldl_delete:
  "distinct (map fst al) \<Longrightarrow> distinct (map fst (foldl (\<lambda>ts k. AList.delete k ts) al ks))"
  by (induction ks arbitrary: al) (simp_all add: distinct_delete)

lemma wf_sweep:
  assumes wf: "well_formed m"
  shows "well_formed (clearOldTransfers maxAge now m)"
proof (rule well_formedI)
  let ?del = "map fst (filter (\<lambda>(k, t). sweepable maxAge now t) (transfers m))"
  let ?m' = "clearOldTransfers maxAge now m"
  have tr: "transfers ?m' = foldl (\<lambda>ts k. AList.delete k ts) (transfers m) ?del"
    and ac: "activeTransfers ?m' = activeTransfers m"
    and nx: "nextId ?m' = nextId m"
    by (simp_all add: clearOldTransfers_def)
  have look: "map_of (transfers ?m') j = (if j \<in> set ?del then None else map_of (transfers m) j)"
    for j unfolding tr by (rule map_of_foldl_delete)
  show "distinct (map fst (transfers ?m'))"
    unfolding tr using wf_keys [OF wf] by (rule distinct_foldl_delete)
  show "distinct (activeTransfers ?m')"
    unfolding ac by (rule wf_slots [OF wf])
  show "j \<in> set (activeTransfers ?m') \<longleftrightarrow>
        (\<exists>x. map_of (transfers ?m') j = Some x \<and> status x = Active)" for j
  proof (cases "j \<in> set ?del")
    case False
    then show ?thesis using wf_active [OF wf, of j] by (simp add: look ac)
  next
    case True
    then obtain t where "(j, t) \<in> set (transfers m)" and sw: "sweepable maxAge now t"
      by auto
    then have "map_of (transfers m) j = Some t" using wf_keys [OF wf] by simp
    moreover have "status t \<noteq> Active" using sw by (auto simp add: sweepable_def)
    ultimately have "j \<notin> set (activeTransfers m)"
      using wf_active [OF wf, of j] by simp
    then show ?thesis using True by (simp add: look ac)
  qed
  show "j < nextId ?m'" if "map_of (transfers ?m') j = Some x" for j x
  proof -
    from that have "map_of (transfers m) j = Some x"
      by (simp add: look split: if_splits)
    then show ?thesis using wf_fresh [OF wf] by (simp add: nx)
  qed
qed

lemma wf_step:
  assumes wf: "well_formed m"
  shows "well_formed (step e m)"
proof (cases e)
  case (Submit sourceServer destServer files now)
  then show ?thesis
    using wf_processQueue [OF wf_createLoop [OF wf]]
    by (simp add: createTransfers_def case_prod_beta)
next
  case (Progress k p)
  then show ?thesis
    using wf wf_mutate [OF wf] by (simp add: progressCallback_def split: option.splits)
next
  case (Resolved k now)
  then show ?thesis using wf by (simp add: rsyncResolved_def wf_settle)
next
  case (Rejected k message now)
  then show ?thesis using wf by (simp add: rsyncRejected_def wf_settle)
next
  case (Cancel k now)
  then show ?thesis
    using wf wf_cancel [OF wf, of k now] by (auto split: sum.splits)
next
  case (SetMaxConcurrent newMax)
  have "well_formed (setMaxConcurrent newMax m)"
    by (rule wf_fields [OF wf]) (simp_all add: setMaxConcurrent_def)
  then show ?thesis using SetMaxConcurrent by simp
next
  case (ClearOld maxAge now)
  then show ?thesis using wf by (simp add: wf_sweep)
qed

lemma startTransfer_slots:
  "activeTransfers (startTransfer k sourceServer destServer now m) = activeTransfers m
   \<and> maxConcurrent (startTransfer k sourceServer destServer now m) = maxConcurrent m"
  by (simp add: startTransfer_def split: option.splits)

lemma mutate_slots:
  "activeTransfers (mutate k f m) = activeTransfers m
   \<and> maxConcurrent (mutate k f m) = maxConcurrent m"
  by (simp add: mutate_def split: option.splits)

lemma length_removeAll_le: "length (removeAll k xs) \<le> length xs"
  by (simp add: removeAll_filter_not_eq)

lemma removeAll_within:
  assumes "of_nat (length xs) \<le> (b::rat)"
  shows "of_nat (length (removeAll k xs)) \<le> b"
proof -
  have "(of_nat (length (removeAll k xs)) :: rat) \<le> of_nat (length xs)"
    using length_removeAll_le [of k xs] by (simp only: of_nat_le_iff)
  then show ?thesis using assms by (rule order_trans)
qed

text \<open>Below a whole bound there is room for one more.\<close>

lemma whole_room:
  assumes "whole b" and "of_nat n < b"
  shows "of_nat (Suc n) \<le> b"
proof -
  from assms(1) have "of_int \<lfloor>b\<rfloor> = b" unfolding whole_def .
  then obtain z where b: "b = of_int z" by (rule that [OF sym])
  from assms(2) have "(of_int (int n) :: rat) < of_int z"
    unfolding b by simp
  then have "int n < z" by (simp only: of_int_less_iff)
  then have "int (Suc n) \<le> z" by simp
  then have "(of_int (int (Suc n)) :: rat) \<le> of_int z"
    by (simp only: of_int_le_iff)
  then show ?thesis unfolding b by simp
qed

text \<open>Below any bound there is room for one more up to the bound rounded up.\<close>

lemma ceiling_room:
  assumes "of_nat n < (b::rat)"
  shows "int (Suc n) \<le> \<lceil>b\<rceil>"
proof -
  from assms have "(of_int (int n) :: rat) < b" by simp
  then have "int n < \<lceil>b\<rceil>" by (simp only: less_ceiling_iff)
  then show ?thesis by simp
qed

lemma maxConcurrent_processQueue:
  "maxConcurrent (processQueue sourceServer destServer now m) = maxConcurrent m"
proof -
  let ?I = "\<lambda>m'. maxConcurrent m' = maxConcurrent m"
  have "?I (processQueue sourceServer destServer now m)"
    by (rule processQueue_preserves [where I = ?I]) (simp_all add: startTransfer_slots)
  then show ?thesis .
qed

lemma maxConcurrent_settle: "maxConcurrent (settle k outcome now m) = maxConcurrent m"
  by (simp add: settle_def maxConcurrent_processQueue mutate_slots
        split: option.splits prod.splits)

lemma maxConcurrent_step:
  "maxConcurrent (step e m) =
     (case e of SetMaxConcurrent newMax \<Rightarrow> newMax | _ \<Rightarrow> maxConcurrent m)"
proof (cases e)
  case (Submit sourceServer destServer files now)
  then show ?thesis
    by (simp add: createTransfers_def case_prod_beta maxConcurrent_processQueue
          createLoop_slots)
next
  case (Progress k p)
  then show ?thesis by (simp add: progressCallback_def mutate_slots split: option.splits)
next
  case (Resolved k now)
  then show ?thesis by (simp add: rsyncResolved_def maxConcurrent_settle)
next
  case (Rejected k message now)
  then show ?thesis by (simp add: rsyncRejected_def maxConcurrent_settle)
next
  case (Cancel k now)
  then show ?thesis
    by (auto simp add: cancelTransfer_def split: option.splits sum.splits if_splits)
next
  case (SetMaxConcurrent newMax)
  then show ?thesis by (simp add: setMaxConcurrent_def)
next
  case (ClearOld maxAge now)
  then show ?thesis by (simp add: clearOldTransfers_def)
qed

lemma within_bound_processQueue:
  assumes "within_bound m" and "whole (maxConcurrent m)"
  shows "within_bound (processQueue sourceServer destServer now m)"
proof -
  let ?I = "\<lambda>m'. within_bound m' \<and> whole (maxConcurrent m')"
  have "?I (processQueue sourceServer destServer now m)"
  proof (rule processQueue_preserves [where I = ?I])
    show "?I m" using assms by simp
  next
    fix m' :: manager and k rest
    assume "?I m'"
    then show "?I (m'\<lparr> queue := rest \<rparr>)" by (simp add: within_bound_def)
  next
    fix m' :: manager and k rest t src dst clock
    assume inv: "?I m'" and free: "of_nat (length (activeTransfers m')) < maxConcurrent m'"
    from inv have wh: "whole (maxConcurrent m')" by simp
    have "length (set_add k (activeTransfers m')) \<le> Suc (length (activeTransfers m'))"
      by (rule length_set_add)
    then have "(of_nat (length (set_add k (activeTransfers m'))) :: rat)
                 \<le> of_nat (Suc (length (activeTransfers m')))"
      by (simp only: of_nat_le_iff)
    also have "\<dots> \<le> maxConcurrent m'" using wh free by (rule whole_room)
    finally show "?I (startTransfer k src dst clock
        (m'\<lparr> queue := rest, activeTransfers := set_add k (activeTransfers m') \<rparr>))"
      using wh by (simp add: within_bound_def startTransfer_slots)
  qed
  then show ?thesis by simp
qed

lemma within_bound_settle:
  assumes wb: "within_bound m" and wh: "whole (maxConcurrent m)"
  shows "within_bound (settle k outcome now m)"
proof (cases "map_of (pending m) k")
  case None
  then show ?thesis using wb by (simp add: settle_def)
next
  case (Some servers)
  let ?m3 = "(mutate k outcome (m\<lparr> pending := AList.delete k (pending m) \<rparr>))
      \<lparr> activeTransfers := removeAll k (activeTransfers m) \<rparr>"
  have "of_nat (length (removeAll k (activeTransfers m))) \<le> maxConcurrent m"
    using wb unfolding within_bound_def by (rule removeAll_within)
  then have "within_bound ?m3" and "whole (maxConcurrent ?m3)"
    using wh by (simp_all add: within_bound_def mutate_slots)
  then have "within_bound (processQueue sourceServer destServer now ?m3)"
    for sourceServer destServer
    by (rule within_bound_processQueue)
  then show ?thesis
    using Some by (simp add: settle_def split: prod.splits)
qed

lemma within_bound_cancel:
  assumes wb: "within_bound m" and ok: "cancelTransfer k now m = Inr (flag, m')"
  shows "within_bound m'"
proof -
  have "of_nat (length (removeAll k (activeTransfers m))) \<le> maxConcurrent m"
    using wb unfolding within_bound_def by (rule removeAll_within)
  then show ?thesis
    using wb ok
    by (auto simp add: cancelTransfer_def within_bound_def split: option.splits if_splits)
qed

lemma within_bound_step:
  assumes wf: "well_formed m" and wb: "within_bound m" and wh: "whole (maxConcurrent m)"
    and guard: "case e of
                  SetMaxConcurrent newMax \<Rightarrow>
                    whole newMax \<and> of_nat (active (getStatistics m)) \<le> newMax
                | _ \<Rightarrow> True"
  shows "within_bound (step e m) \<and> whole (maxConcurrent (step e m))"
proof (cases e)
  case (Submit sourceServer destServer files now)
  let ?m1 = "snd (createLoop sourceServer destServer now files m)"
  have "within_bound ?m1" and "whole (maxConcurrent ?m1)"
    using wb wh by (simp_all add: within_bound_def createLoop_slots)
  then have "within_bound (processQueue sourceServer destServer now ?m1)"
    by (rule within_bound_processQueue)
  then show ?thesis
    using Submit wh
    by (simp add: createTransfers_def case_prod_beta maxConcurrent_processQueue
          createLoop_slots)
next
  case (Progress k p)
  then show ?thesis
    using wb wh
    by (simp add: progressCallback_def within_bound_def mutate_slots split: option.splits)
next
  case (Resolved k now)
  then show ?thesis
    using wb wh by (simp add: rsyncResolved_def within_bound_settle maxConcurrent_settle)
next
  case (Rejected k message now)
  then show ?thesis
    using wb wh by (simp add: rsyncRejected_def within_bound_settle maxConcurrent_settle)
next
  case (Cancel k now)
  have "maxConcurrent (step e m) = maxConcurrent m"
    by (subst maxConcurrent_step) (simp add: Cancel)
  then have "whole (maxConcurrent (step e m))"
    using wh by (simp only:)
  moreover have "within_bound (step e m)"
    using Cancel wb within_bound_cancel [OF wb, of k now] by (auto split: sum.splits)
  ultimately show ?thesis by simp
next
  case (SetMaxConcurrent newMax)
  then have "whole newMax" and "of_nat (length (activeTransfers m)) \<le> newMax"
    using guard by (simp_all add: active_count [OF wf])
  then show ?thesis
    using SetMaxConcurrent by (simp add: setMaxConcurrent_def within_bound_def)
next
  case (ClearOld maxAge now)
  then show ?thesis using wb wh by (simp add: clearOldTransfers_def within_bound_def)
qed

lemma run_invariant:
  assumes "well_formed m" and "within_bound m" and "whole (maxConcurrent m)"
    and "bound_kept evs m"
  shows "well_formed (run evs m) \<and> within_bound (run evs m)"
  using assms
proof (induction evs arbitrary: m)
  case Nil
  then show ?case by simp
next
  case (Cons e evs)
  from Cons.prems(4) have guard: "case e of
        SetMaxConcurrent newMax \<Rightarrow>
          whole newMax \<and> of_nat (active (getStatistics m)) \<le> newMax
      | _ \<Rightarrow> True"
    and rest: "bound_kept evs (step e m)"
    by simp_all
  have "well_formed (step e m)" using Cons.prems(1) by (rule wf_step)
  moreover have "within_bound (step e m) \<and> whole (maxConcurrent (step e m))"
    using Cons.prems(1,2,3) guard by (rule within_bound_step)
  ultimately show ?case using rest Cons.IH by simp
qed

lemma bound_kept_take: "bound_kept evs m \<Longrightarrow> bound_kept (take n evs) m"
proof (induction evs arbitrary: m n)
  case Nil
  then show ?case by simp
next
  case (Cons e evs)
  then show ?case by (cases n) simp_all
qed

lemma new_manager_invariant:
  "well_formed new_manager \<and> within_bound new_manager \<and> whole (maxConcurrent new_manager)"
  by (simp add: well_formed_def within_bound_def new_manager_def active_ids_def whole_def)

text \<open>
  Whatever the bound, an event leaves at most as many running ids as the larger of their
  number before the event and the bound in force after it, rounded up.
\<close>

lemma processQueue_capped:
  "int (length (activeTransfers (processQueue sourceServer destServer now m)))
     \<le> max (int (length (activeTransfers m))) \<lceil>maxConcurrent m\<rceil>"
proof -
  let ?L = "int (length (activeTransfers m))" and ?B = "maxConcurrent m"
  let ?I = "\<lambda>m'. int (length (activeTransfers m')) \<le> max ?L \<lceil>?B\<rceil> \<and> maxConcurrent m' = ?B"
  have "?I (processQueue sourceServer destServer now m)"
  proof (rule processQueue_preserves [where I = ?I])
    show "?I m" by simp
  next
    fix m' :: manager and k rest
    assume "?I m'"
    then show "?I (m'\<lparr> queue := rest \<rparr>)" by simp
  next
    fix m' :: manager and k rest t src dst clock
    assume inv: "?I m'" and free: "of_nat (length (activeTransfers m')) < maxConcurrent m'"
    have "length (set_add k (activeTransfers m')) \<le> Suc (length (activeTransfers m'))"
      by (rule length_set_add)
    moreover have "int (Suc (length (activeTransfers m'))) \<le> \<lceil>?B\<rceil>"
      using free inv ceiling_room [of "length (activeTransfers m')" ?B] by simp
    ultimately have "int (length (set_add k (activeTransfers m'))) \<le> max ?L \<lceil>?B\<rceil>"
      by linarith
    then show "?I (startTransfer k src dst clock
        (m'\<lparr> queue := rest, activeTransfers := set_add k (activeTransfers m') \<rparr>))"
      using inv by (simp add: startTransfer_slots)
  qed
  then show ?thesis by simp
qed

lemma settle_capped:
  "int (length (activeTransfers (settle k outcome now m)))
     \<le> max (int (length (activeTransfers m))) \<lceil>maxConcurrent m\<rceil>"
proof (cases "map_of (pending m) k")
  case None
  then show ?thesis by (simp add: settle_def)
next
  case (Some servers)
  obtain sourceServer destServer where sv: "servers = (sourceServer, destServer)"
    by (cases servers)
  let ?m3 = "(mutate k outcome (m\<lparr> pending := AList.delete k (pending m) \<rparr>))
               \<lparr> activeTransfers := removeAll k (activeTransfers m) \<rparr>"
  have eq: "settle k outcome now m = processQueue sourceServer destServer now ?m3"
    using Some sv by (simp add: settle_def)
  have mx: "maxConcurrent ?m3 = maxConcurrent m" by (simp add: mutate_slots)
  have le: "int (length (activeTransfers ?m3)) \<le> int (length (activeTransfers m))"
    using length_removeAll_le [of k "activeTransfers m"] by simp
  from processQueue_capped [of sourceServer destServer now ?m3] mx le
  show ?thesis unfolding eq by linarith
qed

lemma step_capped:
  "int (length (activeTransfers (step e m)))
     \<le> max (int (length (activeTransfers m))) \<lceil>maxConcurrent (step e m)\<rceil>"
proof (cases e)
  case (Submit sourceServer destServer files now)
  let ?m1 = "snd (createLoop sourceServer destServer now files m)"
  have eq: "step e m = processQueue sourceServer destServer now ?m1"
    using Submit by (simp add: createTransfers_def case_prod_beta)
  from processQueue_capped [of sourceServer destServer now ?m1]
  show ?thesis unfolding eq by (simp add: createLoop_slots maxConcurrent_processQueue)
next
  case (Progress k p)
  then show ?thesis
    by (simp add: progressCallback_def mutate_slots split: option.splits)
next
  case (Resolved k now)
  then show ?thesis
    using settle_capped by (simp add: rsyncResolved_def maxConcurrent_settle)
next
  case (Rejected k message now)
  then show ?thesis
    using settle_capped by (simp add: rsyncRejected_def maxConcurrent_settle)
next
  case (Cancel k now)
  have le: "int (length (removeAll k (activeTransfers m)))
              \<le> max (int (length (activeTransfers m))) \<lceil>maxConcurrent m\<rceil>"
    using length_removeAll_le [of k "activeTransfers m"] by linarith
  show ?thesis
    using Cancel
    by (auto simp add: cancelTransfer_def le split: option.splits sum.splits if_splits)
next
  case (SetMaxConcurrent newMax)
  then show ?thesis by (simp add: setMaxConcurrent_def)
next
  case (ClearOld maxAge now)
  then show ?thesis by (simp add: clearOldTransfers_def)
qed

lemma wf_run: "well_formed m \<Longrightarrow> well_formed (run evs m)"
  by (induction evs arbitrary: m) (simp_all add: wf_step)

text \<open>
  With the bound 2.5 set on a new manager, a batch of three files is admitted in full
  (0, 1 and 2 are below 2.5): a bound that is not whole is overshot by admission itself.
\<close>

lemma fractional_bound_overshot:
  "active (getStatistics
     (step (Submit serverA serverB [movie ''1'', movie ''2'', movie ''3''] 1000)
        fractional_bound)) = 3
   \<and> maxConcurrent
       (step (Submit serverA serverB [movie ''1'', movie ''2'', movie ''3''] 1000)
          fractional_bound) = 5 / 2"
  by code_simp

text \<open>
  Claim C1, amended. At every point of every run of submissions, admissions, progress
  reports, completions, failures, cancellations, sweeps and changes of the bound that
  starts from a new manager, the number of records whose status is active is at most
  \<open>maxConcurrent\<close>, provided that every call of \<open>setMaxConcurrent\<close> sets a whole number
  that is not below the number of records active at the moment of the call. Lowering the
  bound does not preempt active transfers, it only stops further admissions: in every
  run, whatever numbers are set, no event takes the number of active records above the
  larger of its value before the event and the bound in force after it, rounded up to a
  whole number.
\<close>

theorem active_within_bound:
  "(bound_kept evs new_manager \<longrightarrow>
      of_nat (active (getStatistics (run (take n evs) new_manager)))
        \<le> maxConcurrent (run (take n evs) new_manager))
   \<and> int (active (getStatistics (step e (run evs new_manager))))
        \<le> max (int (active (getStatistics (run evs new_manager))))
              \<lceil>maxConcurrent (step e (run evs new_manager))\<rceil>"
proof -
  have wf0: "well_formed new_manager" using new_manager_invariant by simp
  have guarded: "of_nat (active (getStatistics (run (take n evs) new_manager)))
        \<le> maxConcurrent (run (take n evs) new_manager)"
    if kept: "bound_kept evs new_manager"
  proof -
    from kept have "bound_kept (take n evs) new_manager" by (rule bound_kept_take)
    with new_manager_invariant
    have "well_formed (run (take n evs) new_manager)
          \<and> within_bound (run (take n evs) new_manager)"
      by (simp add: run_invariant)
    then show ?thesis by (simp add: active_count within_bound_def)
  qed
  have wf: "well_formed (run evs new_manager)" using wf0 by (rule wf_run)
  then have wf': "well_formed (step e (run evs new_manager))" by (rule wf_step)
  have capped: "int (active (getStatistics (step e (run evs new_manager))))
        \<le> max (int (active (getStatistics (run evs new_manager))))
              \<lceil>maxConcurrent (step e (run evs new_manager))\<rceil>"
    using step_capped [of e "run evs new_manager"]
    by (simp add: active_count [OF wf] active_count [OF wf'])
  from guarded capped show ?thesis by blast
qed

theorem active_within_bound_witness:
  "bound_kept busy_run new_manager
   \<and> getStatistics (run (take 6 busy_run) new_manager) =
       \<lparr> total = 5, queued = 0, active = 2, completed = 1, failed = 1, cancelled = 1,
         skipped = 0 \<rparr>
   \<and> maxConcurrent (run (take 6 busy_run) new_manager) = 2
   \<and> of_nat (active (getStatistics (run (take 6 busy_run) new_manager)))
        \<le> maxConcurrent (run (take 6 busy_run) new_manager)
   \<and> int (active (getStatistics
        (step (Submit serverA serverB [movie ''1'', movie ''2'', movie ''3''] 1000)
           (run [SetMaxConcurrent (5 / 2)] new_manager))))
        \<le> max (int (active (getStatistics (run [SetMaxConcurrent (5 / 2)] new_manager))))
              \<lceil>maxConcurrent
                 (step (Submit serverA serverB [movie ''1'', movie ''2'', movie ''3''] 1000)
                    (run [SetMaxConcurrent (5 / 2)] new_manager))\<rceil>"
proof -
  have kept: "bound_kept busy_run new_manager" by code_simp
  have st: "getStatistics (run (take 6 busy_run) new_manager) =
       \<lparr> total = 5, queued = 0, active = 2, completed = 1, failed = 1, cancelled = 1,
         skipped = 0 \<rparr>"
    by code_simp
  have mx: "maxConcurrent (run (take 6 busy_run) new_manager) = 2"
    by code_simp
  from kept st mx
    active_within_bound [of busy_run 6]
    active_within_bound [of "[SetMaxConcurrent (5 / 2)]" 0
      "Submit serverA serverB [movie ''1'', movie ''2'', movie ''3''] 1000"]
  show ?thesis by simp
qed

end
